theory Spec2Isabelle
  imports Main "HOL-Library.Word"
begin

unbundle bit_operations_syntax

section \<open>Machine types\<close>

type_synonym u8 = "8 word"
type_synonym u32 = "32 word"
type_synonym u64 = "64 word"

text \<open>
  A key of the source is a pointer \<open>key\<close> with a byte count \<open>len\<close>. It is modelled as
  the list of the \<open>len\<close> bytes it addresses, so \<open>len\<close> is the length of the list
  (\<open>size_t\<close> is 64 bits wide: the length enters the arithmetic as a \<open>u64\<close>).
\<close>

type_synonym key = "u8 list"

section \<open>MurmurHash64A (hash.c, lines 36 to 109)\<close>

definition SEED :: u32 where
  "SEED = 4193360111"

definition murmur_m :: u64 where
  "murmur_m = 0xc6a4a7935bd1e995"

definition murmur_r :: nat where
  "murmur_r = 47"

text \<open>
  \<open>*data++\<close> on a \<open>const uint64_t *\<close>: the native load of eight consecutive bytes.
  The byte order is the little-endian one of the platforms the code runs on.
\<close>

definition load_u64 :: "u8 list \<Rightarrow> u64" where
  "load_u64 bs =
     ucast (bs ! 0) OR push_bit 8 (ucast (bs ! 1)) OR push_bit 16 (ucast (bs ! 2))
     OR push_bit 24 (ucast (bs ! 3)) OR push_bit 32 (ucast (bs ! 4))
     OR push_bit 40 (ucast (bs ! 5)) OR push_bit 48 (ucast (bs ! 6))
     OR push_bit 56 (ucast (bs ! 7))"

text \<open>The eight bytes a \<open>uint64_t\<close> occupies in memory, in the same byte order.\<close>

definition bytes_of :: "u64 \<Rightarrow> u8 list" where
  "bytes_of k =
     [ucast k, ucast (drop_bit 8 k), ucast (drop_bit 16 k), ucast (drop_bit 24 k),
      ucast (drop_bit 32 k), ucast (drop_bit 40 k), ucast (drop_bit 48 k),
      ucast (drop_bit 56 k)]"

text \<open>The body of the \<open>while (data != end)\<close> loop: one 8-byte word folded into \<open>h\<close>.\<close>

definition murmur_round :: "u64 \<Rightarrow> u64 \<Rightarrow> u64" where
  "murmur_round k0 h0 =
     (let k = k0 * murmur_m;
          k = k XOR drop_bit murmur_r k;
          k = k * murmur_m;
          h = h0 XOR k
      in h * murmur_m)"

text \<open>
  The loop itself: \<open>n\<close> is the number of words between \<open>data\<close> and \<open>end\<close>
  (\<open>len / 8\<close> at the start); it returns \<open>h\<close> and the bytes \<open>data\<close> then points at.
\<close>

fun murmur_words :: "nat \<Rightarrow> u8 list \<Rightarrow> u64 \<Rightarrow> u64 \<times> u8 list" where
  "murmur_words 0 data h = (h, data)"
| "murmur_words (Suc n) data h = murmur_words n (drop 8 data) (murmur_round (load_u64 data) h)"

text \<open>The \<open>switch (len & 7)\<close> with its fall-through cases, on the trailing bytes.\<close>

definition murmur_tail :: "nat \<Rightarrow> u8 list \<Rightarrow> u64 \<Rightarrow> u64" where
  "murmur_tail c data2 h0 =
     (let h = (if c = 7 then h0 XOR push_bit 48 (ucast (data2 ! 6)) else h0);
          h = (if 6 \<le> c \<and> c \<le> 7 then h XOR push_bit 40 (ucast (data2 ! 5)) else h);
          h = (if 5 \<le> c \<and> c \<le> 7 then h XOR push_bit 32 (ucast (data2 ! 4)) else h);
          h = (if 4 \<le> c \<and> c \<le> 7 then h XOR push_bit 24 (ucast (data2 ! 3)) else h);
          h = (if 3 \<le> c \<and> c \<le> 7 then h XOR push_bit 16 (ucast (data2 ! 2)) else h);
          h = (if 2 \<le> c \<and> c \<le> 7 then h XOR push_bit 8 (ucast (data2 ! 1)) else h)
      in if 1 \<le> c \<and> c \<le> 7 then (h XOR ucast (data2 ! 0)) * murmur_m else h)"

definition murmur_final :: "u64 \<Rightarrow> u64" where
  "murmur_final h0 =
     (let h = h0 XOR drop_bit murmur_r h0;
          h = h * murmur_m
      in h XOR drop_bit murmur_r h)"

definition murmur_hash_64A :: "key \<Rightarrow> u32 \<Rightarrow> u64" where
  "murmur_hash_64A k seed =
     (let len = length k;
          h = ucast seed XOR (of_nat len * murmur_m);
          (h, data2) = murmur_words (len div 8) k h;
          h = murmur_tail (len mod 8) data2 h
      in murmur_final h)"

definition murmur_rehash_64A :: "u64 \<Rightarrow> u64" where
  "murmur_rehash_64A k0 =
     (let h = ucast SEED XOR (8 * murmur_m);
          k = k0 * murmur_m;
          k = k XOR drop_bit murmur_r k;
          k = k * murmur_m;
          h = h XOR k;
          h = h * murmur_m;
          h = h XOR drop_bit murmur_r h;
          h = h * murmur_m
      in h XOR drop_bit murmur_r h)"

section \<open>CRC32 (hash.c, lines 194 to 282)\<close>

definition crc32tab :: "u32 list" where
  "crc32tab = [
    0x00000000, 0x77073096, 0xee0e612c, 0x990951ba,
    0x076dc419, 0x706af48f, 0xe963a535, 0x9e6495a3,
    0x0edb8832, 0x79dcb8a4, 0xe0d5e91e, 0x97d2d988,
    0x09b64c2b, 0x7eb17cbd, 0xe7b82d07, 0x90bf1d91,
    0x1db71064, 0x6ab020f2, 0xf3b97148, 0x84be41de,
    0x1adad47d, 0x6ddde4eb, 0xf4d4b551, 0x83d385c7,
    0x136c9856, 0x646ba8c0, 0xfd62f97a, 0x8a65c9ec,
    0x14015c4f, 0x63066cd9, 0xfa0f3d63, 0x8d080df5,
    0x3b6e20c8, 0x4c69105e, 0xd56041e4, 0xa2677172,
    0x3c03e4d1, 0x4b04d447, 0xd20d85fd, 0xa50ab56b,
    0x35b5a8fa, 0x42b2986c, 0xdbbbc9d6, 0xacbcf940,
    0x32d86ce3, 0x45df5c75, 0xdcd60dcf, 0xabd13d59,
    0x26d930ac, 0x51de003a, 0xc8d75180, 0xbfd06116,
    0x21b4f4b5, 0x56b3c423, 0xcfba9599, 0xb8bda50f,
    0x2802b89e, 0x5f058808, 0xc60cd9b2, 0xb10be924,
    0x2f6f7c87, 0x58684c11, 0xc1611dab, 0xb6662d3d,
    0x76dc4190, 0x01db7106, 0x98d220bc, 0xefd5102a,
    0x71b18589, 0x06b6b51f, 0x9fbfe4a5, 0xe8b8d433,
    0x7807c9a2, 0x0f00f934, 0x9609a88e, 0xe10e9818,
    0x7f6a0dbb, 0x086d3d2d, 0x91646c97, 0xe6635c01,
    0x6b6b51f4, 0x1c6c6162, 0x856530d8, 0xf262004e,
    0x6c0695ed, 0x1b01a57b, 0x8208f4c1, 0xf50fc457,
    0x65b0d9c6, 0x12b7e950, 0x8bbeb8ea, 0xfcb9887c,
    0x62dd1ddf, 0x15da2d49, 0x8cd37cf3, 0xfbd44c65,
    0x4db26158, 0x3ab551ce, 0xa3bc0074, 0xd4bb30e2,
    0x4adfa541, 0x3dd895d7, 0xa4d1c46d, 0xd3d6f4fb,
    0x4369e96a, 0x346ed9fc, 0xad678846, 0xda60b8d0,
    0x44042d73, 0x33031de5, 0xaa0a4c5f, 0xdd0d7cc9,
    0x5005713c, 0x270241aa, 0xbe0b1010, 0xc90c2086,
    0x5768b525, 0x206f85b3, 0xb966d409, 0xce61e49f,
    0x5edef90e, 0x29d9c998, 0xb0d09822, 0xc7d7a8b4,
    0x59b33d17, 0x2eb40d81, 0xb7bd5c3b, 0xc0ba6cad,
    0xedb88320, 0x9abfb3b6, 0x03b6e20c, 0x74b1d29a,
    0xead54739, 0x9dd277af, 0x04db2615, 0x73dc1683,
    0xe3630b12, 0x94643b84, 0x0d6d6a3e, 0x7a6a5aa8,
    0xe40ecf0b, 0x9309ff9d, 0x0a00ae27, 0x7d079eb1,
    0xf00f9344, 0x8708a3d2, 0x1e01f268, 0x6906c2fe,
    0xf762575d, 0x806567cb, 0x196c3671, 0x6e6b06e7,
    0xfed41b76, 0x89d32be0, 0x10da7a5a, 0x67dd4acc,
    0xf9b9df6f, 0x8ebeeff9, 0x17b7be43, 0x60b08ed5,
    0xd6d6a3e8, 0xa1d1937e, 0x38d8c2c4, 0x4fdff252,
    0xd1bb67f1, 0xa6bc5767, 0x3fb506dd, 0x48b2364b,
    0xd80d2bda, 0xaf0a1b4c, 0x36034af6, 0x41047a60,
    0xdf60efc3, 0xa867df55, 0x316e8eef, 0x4669be79,
    0xcb61b38c, 0xbc66831a, 0x256fd2a0, 0x5268e236,
    0xcc0c7795, 0xbb0b4703, 0x220216b9, 0x5505262f,
    0xc5ba3bbe, 0xb2bd0b28, 0x2bb45a92, 0x5cb36a04,
    0xc2d7ffa7, 0xb5d0cf31, 0x2cd99e8b, 0x5bdeae1d,
    0x9b64c2b0, 0xec63f226, 0x756aa39c, 0x026d930a,
    0x9c0906a9, 0xeb0e363f, 0x72076785, 0x05005713,
    0x95bf4a82, 0xe2b87a14, 0x7bb12bae, 0x0cb61b38,
    0x92d28e9b, 0xe5d5be0d, 0x7cdcefb7, 0x0bdbdf21,
    0x86d3d2d4, 0xf1d4e242, 0x68ddb3f8, 0x1fda836e,
    0x81be16cd, 0xf6b9265b, 0x6fb077e1, 0x18b74777,
    0x88085ae6, 0xff0f6a70, 0x66063bca, 0x11010b5c,
    0x8f659eff, 0xf862ae69, 0x616bffd3, 0x166ccf45,
    0xa00ae278, 0xd70dd2ee, 0x4e048354, 0x3903b3c2,
    0xa7672661, 0xd06016f7, 0x4969474d, 0x3e6e77db,
    0xaed16a4a, 0xd9d65adc, 0x40df0b66, 0x37d83bf0,
    0xa9bcae53, 0xdebb9ec5, 0x47b2cf7f, 0x30b5ffe9,
    0xbdbdf21c, 0xcabac28a, 0x53b39330, 0x24b4a3a6,
    0xbad03605, 0xcdd70693, 0x54de5729, 0x23d967bf,
    0xb3667a2e, 0xc4614ab8, 0x5d681b02, 0x2a6f2b94,
    0xb40bbe37, 0xc30c8ea1, 0x5a05df1b, 0x2d02ef8d]"

text \<open>
  One step of the \<open>for\<close> loop. \<open>key[i]\<close> is a \<open>char\<close>: it is promoted to \<open>int\<close> with its
  sign and converted to 32 bits for the exclusive or; the mask keeps the low byte. The
  loop counter \<open>i\<close> is an \<open>unsigned int\<close>: the fold below is the loop for keys shorter
  than \<open>2^32\<close> bytes.
\<close>

definition crc32_step :: "u32 \<Rightarrow> u8 \<Rightarrow> u32" where
  "crc32_step crc b = drop_bit 8 crc XOR crc32tab ! unat ((crc XOR scast b) AND 0xff)"

definition crc32_hash :: "key \<Rightarrow> u32" where
  "crc32_hash k = NOT (foldl crc32_step (NOT 0) k)"

section \<open>FurcHash (hash.c, lines 20 to 189)\<close>

text \<open>
  The header \<open>hash.h\<close> defines \<open>FURC_SHIFT\<close>, \<open>FURC_MAX_TRIES\<close> and \<open>FURC_CACHE_SIZE\<close>.
  They are parameters here: \<open>shift\<close> (a natural number), \<open>max_tries\<close> (compared with
  the \<open>uint32_t\<close> counter \<open>tries\<close>, hence a \<open>u32\<close>) and \<open>csize\<close> (a number of array
  elements).
\<close>

datatype error = OutOfBounds | AssertionFailed

text \<open>
  The memory \<open>furc_get_bit\<close> works on: the array behind the pointer \<open>hash\<close>, the
  \<open>int32_t\<close> cell behind \<open>old_ord_p\<close>, and a log of the bit indices requested with a
  non-null key so far (\<open>reads\<close>; the source keeps no such log, no result depends on it).
  An access outside the array is the error \<open>OutOfBounds\<close>.
\<close>

record furc_state =
  hash :: "u64 list"
  old_ord :: int
  reads :: "u32 list"

text \<open>The \<open>for (n = *old_ord_p + 1; n <= ord; n++)\<close> loop of \<open>furc_get_bit\<close>.\<close>

function furc_fill :: "key \<Rightarrow> int \<Rightarrow> int \<Rightarrow> u64 list \<Rightarrow> error + u64 list" where
  "furc_fill k n ord h =
     (if n \<le> ord then
        (if n < 0 \<or> int (length h) \<le> n then Inl OutOfBounds
         else furc_fill k (n + 1) ord
                (h[nat n := (if n = 0 then murmur_hash_64A k SEED
                             else murmur_rehash_64A (h ! nat (n - 1)))]))
      else Inr h)"
  by pat_completeness auto
termination
  by (relation "measure (\<lambda>(k, n, ord, h). nat (ord + 1 - n))") auto

text \<open>
  \<open>furc_get_bit\<close>; a null key is \<open>None\<close>. \<open>ord = idx >> 6\<close> is below \<open>2^26\<close>, so its
  conversion to \<open>int32_t\<close> keeps the value.
\<close>

definition furc_get_bit :: "key option \<Rightarrow> u32 \<Rightarrow> furc_state \<Rightarrow> error + (u32 \<times> furc_state)" where
  "furc_get_bit ko idx st =
     (let ord = uint (drop_bit 6 idx) in
      case ko of
        None \<Rightarrow> Inr (0, st\<lparr>old_ord := - 1\<rparr>)
      | Some k \<Rightarrow>
          (case (if old_ord st < ord then furc_fill k (old_ord st + 1) ord (hash st)
                 else Inr (hash st)) of
             Inl e \<Rightarrow> Inl e
           | Inr h \<Rightarrow>
               if int (length h) \<le> ord then Inl OutOfBounds
               else Inr (ucast (drop_bit (unat (idx AND 0x3f)) (h ! nat ord) AND 1),
                         \<lparr>hash = h,
                          old_ord = (if old_ord st < ord then ord else old_ord st),
                          reads = reads st @ [idx]\<rparr>)))"

text \<open>
  \<open>furc_maximum_pool_size\<close> returns \<open>1 << FURC_SHIFT\<close> as a \<open>uint32_t\<close>. The comment at
  the top of the source puts \<open>2^FURC_SHIFT\<close> at 8 million, which is \<open>FURC_SHIFT = 23\<close>.
\<close>

definition furc_maximum_pool_size :: "nat \<Rightarrow> u32" where
  "furc_maximum_pool_size shift = push_bit shift 1"

lemma unat_lt_u32: "unat (d::u32) < 4294967296"
  using unsigned_less[of d, where 'a=nat] by simp

lemma unat_plus_one_u32: "unat (d::u32) < 4294967295 \<Longrightarrow> unat (d + 1) = unat d + 1"
  using unat_add_lem[of d 1] by simp

lemma unat_ucast_u32_u64: "unat (ucast (m::u32) :: u64) = unat m"
proof -
  have "unat m < 2 ^ 64" using unat_lt_u32[of m] by simp
  then show ?thesis by (simp add: unsigned_ucast_eq take_bit_nat_eq_self)
qed

lemma unat_two_power: "n < LENGTH('a::len) \<Longrightarrow> unat (2 ^ n :: 'a word) = 2 ^ n"
proof -
  assume n: "n < LENGTH('a)"
  have "unat (2 ^ n :: 'a word) = unat (of_nat (2 ^ n) :: 'a word)" by simp
  also have "\<dots> = 2 ^ n mod 2 ^ LENGTH('a)" by (simp only: unat_of_nat)
  also have "\<dots> = 2 ^ n" using n by simp
  finally show ?thesis .
qed

lemma depth_cond:
  "unat d < 64 \<Longrightarrow> ((push_bit (unat d) 1 :: u64) < ucast (m::u32)) = (2 ^ unat d < unat m)"
  by (simp add: word_less_nat_alt unat_ucast_u32_u64 unat_two_power)

lemma depth_cond_small:
  assumes "unat d < 64" "(push_bit (unat d) 1 :: u64) < ucast (m::u32)"
  shows "unat (d::u32) < 32"
proof (rule ccontr)
  assume "\<not> unat d < 32"
  then have "(2::nat) ^ 32 \<le> 2 ^ unat d" by (intro power_increasing) auto
  moreover have "unat m < 2 ^ 32" using unat_lt_u32[of m] by simp
  moreover have "2 ^ unat d < unat m" using assms depth_cond by blast
  ultimately show False by simp
qed

text \<open>
  \<open>for (d = 0; m > (1ul << d); d++);\<close> with \<open>unsigned long\<close> 64 bits wide. The loop ends
  with \<open>d \<le> 32\<close>; the measure also covers the starting values the source never uses.
\<close>

function furc_depth :: "u32 \<Rightarrow> u32 \<Rightarrow> u32" where
  "furc_depth m d =
     (if (push_bit (unat d) 1 :: u64) < ucast m then furc_depth m (d + 1) else d)"
  by pat_completeness auto
termination
proof (relation "measure (\<lambda>(m, d). if unat d < 64 then 64 - unat d else 4294967360 - unat d)")
  fix m d :: u32
  assume c: "(push_bit (unat d) 1 :: u64) < ucast m"
  have lt: "unat d < 4294967296" by (rule unat_lt_u32)
  show "((m, d + 1), (m, d))
          \<in> measure (\<lambda>(m, d). if unat d < 64 then 64 - unat d else 4294967360 - unat d)"
  proof (cases "unat d < 64")
    case True
    then have "unat d < 32" using c by (rule depth_cond_small)
    then show ?thesis by (simp add: unat_plus_one_u32)
  next
    case False
    show ?thesis
    proof (cases "unat d < 4294967295")
      case True
      then show ?thesis using False by (simp add: unat_plus_one_u32)
    next
      case F2: False
      then have "unat d = 4294967295" using lt by simp
      then have "d = 4294967295" by (simp add: word_unat_eq_iff)
      then show ?thesis by simp
    qed
  qed
qed simp

text \<open>
  The descend-while-zero loop, \<open>while (!furc_get_bit(key, len, a, hash, &old_ord))\<close>.
  The first component of the result is \<open>Some 0\<close> when the loop leaves the function by
  \<open>return 0\<close>, and \<open>None\<close> when it ends on a bit 1; then come \<open>d\<close>, \<open>a\<close> and the memory.
\<close>

function furc_descend ::
  "key \<Rightarrow> u32 \<Rightarrow> u32 \<Rightarrow> furc_state \<Rightarrow> error + (u32 option \<times> u32 \<times> u32 \<times> furc_state)" where
  "furc_descend k d a st =
     (case furc_get_bit (Some k) a st of
        Inl e \<Rightarrow> Inl e
      | Inr (b, st') \<Rightarrow>
          if b = 0 then
            (if d - 1 = 0 then Inr (Some 0, d - 1, a, st')
             else furc_descend k (d - 1) (d - 1) st')
          else Inr (None, d, a, st'))"
  by pat_completeness auto
termination
proof (relation "measure (\<lambda>(k, d, a, st). unat (d - 1))")
  fix d :: u32
  fix k :: key and a :: u32 and st st' :: furc_state
  assume "d - 1 \<noteq> 0"
  then have "unat (d - 1 - 1) < unat (d - 1)" by unat_arith
  then show "((k, d - 1, d - 1, st'), (k, d, a, st)) \<in> measure (\<lambda>(k, d, a, st). unat (d - 1))"
    by simp
qed simp

text \<open>The candidate loop, \<open>for (i = 0; i < d-1; i++)\<close>; it returns \<open>num\<close>, \<open>a\<close> and the memory.\<close>

function furc_build ::
  "nat \<Rightarrow> key \<Rightarrow> u32 \<Rightarrow> u32 \<Rightarrow> u32 \<Rightarrow> u32 \<Rightarrow> furc_state \<Rightarrow> error + (u32 \<times> u32 \<times> furc_state)" where
  "furc_build shift k d i num a st =
     (if i < d - 1 then
        (case furc_get_bit (Some k) a st of
           Inl e \<Rightarrow> Inl e
         | Inr (b, st') \<Rightarrow>
             furc_build shift k d (i + 1) (push_bit 1 num OR b) (a + of_nat shift) st')
      else Inr (num, a, st))"
  by pat_completeness auto
termination
proof (relation "measure (\<lambda>(shift, k, d, i, num, a, st). unat (d - 1) - unat i)")
  fix d i :: u32
  fix shift :: nat and k :: key and num a b :: u32 and st st' :: furc_state
  assume "i < d - 1"
  then have "unat (d - 1) - unat (i + 1) < unat (d - 1) - unat i" by unat_arith
  then show "((shift, k, d, i + 1, push_bit 1 num OR b, a + of_nat shift, st'),
              (shift, k, d, i, num, a, st))
               \<in> measure (\<lambda>(shift, k, d, i, num, a, st). unat (d - 1) - unat i)"
    by simp
qed simp

text \<open>The retry loop, \<open>for (tries = 0; tries < FURC_MAX_TRIES; tries++)\<close>, and the final \<open>return 0\<close>.\<close>

function furc_tries ::
  "nat \<Rightarrow> u32 \<Rightarrow> key \<Rightarrow> u32 \<Rightarrow> u32 \<Rightarrow> u32 \<Rightarrow> u32 \<Rightarrow> furc_state \<Rightarrow> error + (u32 \<times> furc_state)" where
  "furc_tries shift max_tries k m tries d a st =
     (if tries < max_tries then
        (case furc_descend k d a st of
           Inl e \<Rightarrow> Inl e
         | Inr (Some v, d', a', st') \<Rightarrow> Inr (v, st')
         | Inr (None, d', a', st') \<Rightarrow>
             (case furc_build shift k d' 0 1 (a' + of_nat shift) st' of
                Inl e \<Rightarrow> Inl e
              | Inr (num, a'', st'') \<Rightarrow>
                  if num < m then Inr (num, st'')
                  else furc_tries shift max_tries k m (tries + 1) d' a'' st''))
      else Inr (0, st))"
  by pat_completeness auto
termination
proof (relation "measure (\<lambda>(shift, max_tries, k, m, tries, d, a, st). unat max_tries - unat tries)")
  fix tries max_tries :: u32
  fix shift :: nat and k :: key and m d a d' a'' :: u32 and st st'' :: furc_state
  assume "tries < max_tries"
  then have "unat max_tries - unat (tries + 1) < unat max_tries - unat tries" by unat_arith
  then show "((shift, max_tries, k, m, tries + 1, d', a'', st''),
              (shift, max_tries, k, m, tries, d, a, st))
               \<in> measure (\<lambda>(shift, max_tries, k, m, tries, d, a, st). unat max_tries - unat tries)"
    by simp
qed simp

text \<open>
  \<open>furc_hash_array\<close>. The assertion is a branch of its own. The local \<open>old_ord\<close> is not
  initialised in the source; the reset call overwrites it before it is read, so the
  value it starts with here (0) is immaterial. The result is the returned bucket together
  with the memory as the walk leaves it.
\<close>

definition furc_hash_array ::
  "nat \<Rightarrow> u32 \<Rightarrow> key \<Rightarrow> u32 \<Rightarrow> u64 list \<Rightarrow> error + (u32 \<times> furc_state)" where
  "furc_hash_array shift max_tries k m hash0 =
     (let st0 = \<lparr>hash = hash0, old_ord = 0, reads = []\<rparr> in
      if furc_maximum_pool_size shift < m then Inl AssertionFailed
      else if m \<le> 1 then Inr (0, st0)
      else
        (case furc_get_bit None 0 st0 of
           Inl e \<Rightarrow> Inl e
         | Inr (b, st) \<Rightarrow>
             (let d = furc_depth m 0 in furc_tries shift max_tries k m 0 d d st)))"

text \<open>
  \<open>furc_hash\<close>: the array is a local of \<open>csize\<close> elements that the source does not
  initialise; \<open>junk\<close> gives the values it happens to hold.
\<close>

definition furc_hash :: "nat \<Rightarrow> u32 \<Rightarrow> nat \<Rightarrow> (nat \<Rightarrow> u64) \<Rightarrow> key \<Rightarrow> u32 \<Rightarrow> error + u32" where
  "furc_hash shift max_tries csize junk k m =
     map_sum id fst (furc_hash_array shift max_tries k m (map junk [0..<csize]))"

section \<open>The bit stream of a key, as the specification words it\<close>

text \<open>
  Block 0 is the mix of the key under \<open>SEED\<close>, block \<open>n + 1\<close> is the rehash of block \<open>n\<close>;
  bit \<open>idx\<close> of the stream is bit \<open>idx mod 64\<close> of block \<open>idx div 64\<close>.
\<close>

fun stream_block :: "key \<Rightarrow> nat \<Rightarrow> u64" where
  "stream_block k 0 = murmur_hash_64A k SEED"
| "stream_block k (Suc n) = murmur_rehash_64A (stream_block k n)"

definition stream_bit :: "key \<Rightarrow> u32 \<Rightarrow> u32" where
  "stream_bit k idx =
     (if bit (stream_block k (unat idx div 64)) (unat idx mod 64) then 1 else 0)"

text \<open>A sequence of requests to \<open>furc_get_bit\<close> for one key, answered in order.\<close>

fun furc_get_bits :: "key \<Rightarrow> u32 list \<Rightarrow> furc_state \<Rightarrow> error + (u32 list \<times> furc_state)" where
  "furc_get_bits k [] st = Inr ([], st)"
| "furc_get_bits k (idx # idxs) st =
     (case furc_get_bit (Some k) idx st of
        Inl e \<Rightarrow> Inl e
      | Inr (b, st') \<Rightarrow>
          (case furc_get_bits k idxs st' of
             Inl e \<Rightarrow> Inl e
           | Inr (bs, st'') \<Rightarrow> Inr (b # bs, st'')))"

text \<open>
  One attempt, the body of the retry loop (lines 161 to 175) as a function of its own:
  it ends the walk with a return value (\<open>Returned\<close>: the \<open>return 0\<close> of the descend, or
  an accepted candidate), or it rejects its candidate and leaves \<open>d\<close>, \<open>a\<close> and the
  memory to the next attempt (\<open>Rejected\<close>). \<open>furc_tries\<close> above contains this body;
  \<open>furc_tries_attempt\<close> below shows that the two agree.
\<close>

datatype attempt = Returned u32 furc_state | Rejected u32 u32 furc_state

definition furc_attempt ::
  "nat \<Rightarrow> key \<Rightarrow> u32 \<Rightarrow> u32 \<Rightarrow> u32 \<Rightarrow> furc_state \<Rightarrow> error + attempt" where
  "furc_attempt shift k m d a st =
     (case furc_descend k d a st of
        Inl e \<Rightarrow> Inl e
      | Inr (Some v, d', a', st') \<Rightarrow> Inr (Returned v st')
      | Inr (None, d', a', st') \<Rightarrow>
          (case furc_build shift k d' 0 1 (a' + of_nat shift) st' of
             Inl e \<Rightarrow> Inl e
           | Inr (num, a'', st'') \<Rightarrow>
               if num < m then Inr (Returned num st'') else Inr (Rejected d' a'' st'')))"

text \<open>
  \<open>furc_rejected n\<close>: where the walk stands after \<open>n\<close> attempts that have all rejected
  their candidate (\<open>None\<close> if one of them did not).
\<close>

fun furc_rejected ::
  "nat \<Rightarrow> key \<Rightarrow> u32 \<Rightarrow> nat \<Rightarrow> u32 \<Rightarrow> u32 \<Rightarrow> furc_state \<Rightarrow> (u32 \<times> u32 \<times> furc_state) option" where
  "furc_rejected shift k m 0 d a st = Some (d, a, st)"
| "furc_rejected shift k m (Suc n) d a st =
     (case furc_attempt shift k m d a st of
        Inr (Rejected d' a' st') \<Rightarrow> furc_rejected shift k m n d' a' st'
      | _ \<Rightarrow> None)"

declare furc_fill.simps [simp del] furc_depth.simps [simp del] furc_descend.simps [simp del]
  furc_build.simps [simp del] furc_tries.simps [simp del]

text \<open>
  What \<open>furc_get_bit\<close> keeps true of the memory between calls for one key: the marker
  is \<open>-1\<close> or an index into the array, and the blocks up to the marker are those of the
  key's stream.
\<close>

definition cache_ok :: "key \<Rightarrow> furc_state \<Rightarrow> bool" where
  "cache_ok k st \<longleftrightarrow>
     - 1 \<le> old_ord st \<and> old_ord st < int (length (hash st)) \<and>
     (\<forall>n < nat (old_ord st + 1). hash st ! n = stream_block k n)"

text \<open>
  The array and the 32-bit position counter are large enough for the walk: with \<open>n\<close>
  array elements, the highest bit position the walk can reach,
  \<open>shift + max_tries * shift * shift\<close>, is at most \<open>64 * n\<close> and below \<open>2^32\<close>.
\<close>

definition furc_fits :: "nat \<Rightarrow> u32 \<Rightarrow> nat \<Rightarrow> bool" where
  "furc_fits shift max_tries n \<longleftrightarrow>
     shift + unat max_tries * (shift * shift) \<le> 64 * n \<and>
     shift + unat max_tries * (shift * shift) < 4294967296"

section \<open>The rehasher is the mixer on eight bytes\<close>

lemma byte_join: "ucast (ucast (drop_bit n k :: u64) :: u8) = (take_bit 8 (drop_bit n k) :: u64)"
  by (rule bit_word_eqI) (auto simp add: bit_simps)

lemma byte_join0: "ucast (ucast (k :: u64) :: u8) = (take_bit 8 k :: u64)"
  by (rule bit_word_eqI) (auto simp add: bit_simps)

lemma byte_glue:
  "push_bit n (take_bit 8 (drop_bit n k)) OR push_bit (n + 8) (drop_bit (n + 8) k)
     = push_bit n (drop_bit n (k::u64))"
proof (rule bit_word_eqI)
  fix i assume i: "i < LENGTH(64)"
  show "bit (push_bit n (take_bit 8 (drop_bit n k)) OR push_bit (n + 8) (drop_bit (n + 8) k)) i
          = bit (push_bit n (drop_bit n k)) i"
  proof (cases "i < n + 8")
    case True
    then show ?thesis using i by (auto simp add: bit_simps)
  next
    case False
    then have "n + 8 + (i - (n + 8)) = i" "n + (i - n) = i" by simp_all
    with False i show ?thesis by (auto simp add: bit_simps)
  qed
qed

lemma byte_top: "push_bit 56 (take_bit 8 (drop_bit 56 k)) = push_bit 56 (drop_bit 56 (k::u64))"
  by (rule bit_word_eqI) (auto simp add: bit_simps)

lemma load_u64_bytes_of: "load_u64 (bytes_of k) = k"
  unfolding load_u64_def bytes_of_def
  using byte_glue[of 48 k] byte_glue[of 40 k] byte_glue[of 32 k] byte_glue[of 24 k]
    byte_glue[of 16 k] byte_glue[of 8 k] byte_glue[of 0 k]
  by (simp add: byte_join byte_join0 byte_top)

lemma length_bytes_of: "length (bytes_of k) = 8"
  by (simp add: bytes_of_def)

text \<open>
  Claim C4. For every 64-bit value \<open>k\<close>, the specialised rehasher equals the general
  mixer applied to the eight bytes \<open>k\<close> occupies in memory, with length 8 and the fixed
  seed: \<open>murmur_rehash_64A(k) = murmur_hash_64A(bytes_of(k), 8, SEED)\<close>.
\<close>

theorem murmur_rehash_is_murmur_hash:
  "murmur_rehash_64A k = murmur_hash_64A (bytes_of k) SEED"
proof -
  have w: "murmur_words (Suc 0) (bytes_of k) h = (murmur_round k h, drop 8 (bytes_of k))" for h
    by (simp add: load_u64_bytes_of)
  show ?thesis
    by (simp add: murmur_hash_64A_def murmur_rehash_64A_def length_bytes_of w murmur_round_def
        murmur_tail_def murmur_final_def load_u64_bytes_of Let_def)
qed

section \<open>CRC32 reference vectors\<close>

text \<open>
  Claim C9. \<open>crc32_hash\<close> of the empty input is \<open>0x00000000\<close>, and \<open>crc32_hash\<close> of the
  nine ASCII bytes of "123456789" is \<open>0xCBF43926\<close>, with the accumulator rule of the
  source: start from all ones, per byte \<open>acc := (acc >> 8) xor table[(acc xor byte) & 0xFF]\<close>,
  return the complement.
\<close>

theorem crc32_hash_vectors:
  "crc32_hash [] = 0x00000000 \<and>
   crc32_hash [0x31, 0x32, 0x33, 0x34, 0x35, 0x36, 0x37, 0x38, 0x39] = 0xCBF43926"
  by code_simp

section \<open>The bit-stream generator serves the stream of the key\<close>

lemma unat_drop_bit_6: "unat (drop_bit 6 idx) = unat (idx::u32) div 64"
  using unat_div[of idx 64] by (simp add: drop_bit_eq_div)

lemma ord_eq: "uint (drop_bit 6 (idx::u32)) = int (unat idx div 64)"
  by (simp only: uint_nat unat_drop_bit_6)

lemma low6_eq: "unat ((idx::u32) AND 0x3f) = unat idx mod 64"
proof -
  have "idx AND 0x3f = take_bit 6 idx"
    by (simp add: take_bit_eq_mask mask_eq_exp_minus_1)
  then have "unat (idx AND 0x3f) = take_bit 6 (unat idx)" by (simp only: unsigned_take_bit_eq)
  then show ?thesis by (simp add: take_bit_eq_mod)
qed

lemma bit_extract: "(ucast (drop_bit j (w::u64) AND 1) :: u32) = (if bit w j then 1 else 0)"
  by (simp add: and_one_eq mod_2_eq_odd bit_iff_odd_drop_bit)

lemma stream_block_rec: "0 < n \<Longrightarrow> stream_block k n = murmur_rehash_64A (stream_block k (n - 1))"
  by (cases n) simp_all

lemma furc_fill_ok:
  "0 \<le> n \<Longrightarrow> n \<le> ord + 1 \<Longrightarrow> ord < int (length h) \<Longrightarrow>
   (\<forall>j < nat n. h ! j = stream_block k j) \<Longrightarrow>
   \<exists>h'. furc_fill k n ord h = Inr h' \<and> length h' = length h \<and>
        (\<forall>j < nat (ord + 1). h' ! j = stream_block k j)"
proof (induction k n ord h rule: furc_fill.induct)
  case (1 k n ord h)
  show ?case
  proof (cases "n \<le> ord")
    case False
    with "1.prems" have "n = ord + 1" by simp
    moreover have "furc_fill k n ord h = Inr h" using False by (subst furc_fill.simps) simp
    ultimately show ?thesis using "1.prems"(4) by simp
  next
    case True
    let ?v = "if n = 0 then murmur_hash_64A k SEED else murmur_rehash_64A (h ! nat (n - 1))"
    let ?h = "h[nat n := ?v]"
    have inb: "\<not> (n < 0 \<or> int (length h) \<le> n)" using True "1.prems" by simp
    have nlt: "nat n < length h" using True "1.prems" by linarith
    have v: "?v = stream_block k (nat n)"
    proof (cases "n = 0")
      case True then show ?thesis by simp
    next
      case False
      with "1.prems" have "0 < nat n" "nat (n - 1) < nat n" "nat (n - 1) = nat n - 1" by simp_all
      with "1.prems"(4) False show ?thesis by (simp add: stream_block_rec)
    qed
    have pre: "\<forall>j < nat (n + 1). ?h ! j = stream_block k j"
    proof (intro allI impI)
      fix j assume j: "j < nat (n + 1)"
      show "?h ! j = stream_block k j"
      proof (cases "j = nat n")
        case True
        have "?h ! nat n = ?v" using nlt by (rule nth_list_update_eq)
        then show ?thesis using True v by simp
      next
        case False
        with j "1.prems" have "j < nat n" by linarith
        with "1.prems"(4) False show ?thesis by simp
      qed
    qed
    have "\<exists>h'. furc_fill k (n + 1) ord ?h = Inr h' \<and> length h' = length ?h \<and>
          (\<forall>j < nat (ord + 1). h' ! j = stream_block k j)"
    proof (rule "1.IH")
      show "n \<le> ord" by (rule True)
      show "\<not> (n < 0 \<or> int (length h) \<le> n)" by (rule inb)
      show "0 \<le> n + 1" using "1.prems" by simp
      show "n + 1 \<le> ord + 1" using True by simp
      show "ord < int (length ?h)" using "1.prems" by simp
      show "\<forall>j < nat (n + 1). ?h ! j = stream_block k j" by (rule pre)
    qed
    then obtain h' where h': "furc_fill k (n + 1) ord ?h = Inr h'" "length h' = length ?h"
          "\<forall>j < nat (ord + 1). h' ! j = stream_block k j" by blast
    have "furc_fill k n ord h = furc_fill k (n + 1) ord ?h" 
      using True inb by (subst furc_fill.simps) simp
    with h' show ?thesis by simp
  qed
qed

lemma stream_bit_alt:
  "stream_bit k idx = ucast (drop_bit (unat (idx AND 0x3f)) (stream_block k (unat idx div 64)) AND 1)"
  by (simp only: stream_bit_def bit_extract low6_eq)

lemma furc_get_bit_ok:
  assumes ok: "cache_ok k st" and b: "unat idx div 64 < length (hash st)"
  shows "\<exists>st'. furc_get_bit (Some k) idx st = Inr (stream_bit k idx, st') \<and> cache_ok k st' \<and>
           length (hash st') = length (hash st) \<and> reads st' = reads st @ [idx]"
proof -
  let ?ord = "int (unat idx div 64)"
  from ok have o1: "- 1 \<le> old_ord st" and o2: "old_ord st < int (length (hash st))"
    and o3: "\<forall>n < nat (old_ord st + 1). hash st ! n = stream_block k n"
    by (simp_all add: cache_ok_def)
  show ?thesis
  proof (cases "old_ord st < ?ord")
    case True
    have "\<exists>h'. furc_fill k (old_ord st + 1) ?ord (hash st) = Inr h' \<and> length h' = length (hash st) \<and>
        (\<forall>j < nat (?ord + 1). h' ! j = stream_block k j)"
      using o1 True b o3 by (intro furc_fill_ok) simp_all
    then obtain h' where h': "furc_fill k (old_ord st + 1) ?ord (hash st) = Inr h'"
      "length h' = length (hash st)" "\<forall>j < nat (?ord + 1). h' ! j = stream_block k j" by blast
    have nth: "h' ! (unat idx div 64) = stream_block k (unat idx div 64)" using h'(3) by simp
    let ?st' = "\<lparr>hash = h', old_ord = ?ord, reads = reads st @ [idx]\<rparr>"
    have "furc_get_bit (Some k) idx st = Inr (stream_bit k idx, ?st')"
      using True h'(1,2) b nth by (simp add: furc_get_bit_def ord_eq stream_bit_alt)
    moreover have "cache_ok k ?st'" using h' b by (simp add: cache_ok_def)
    ultimately show ?thesis using h'(2) by simp
  next
    case False
    then have "unat idx div 64 < nat (old_ord st + 1)" by linarith
    with o3 have nth: "hash st ! (unat idx div 64) = stream_block k (unat idx div 64)" by simp
    let ?st' = "\<lparr>hash = hash st, old_ord = old_ord st, reads = reads st @ [idx]\<rparr>"
    have "furc_get_bit (Some k) idx st = Inr (stream_bit k idx, ?st')"
      using False b nth by (simp add: furc_get_bit_def ord_eq stream_bit_alt)
    moreover have "cache_ok k ?st'" using ok by (simp add: cache_ok_def)
    ultimately show ?thesis by simp
  qed
qed

lemma furc_get_bit_reset:
  "furc_get_bit None idx st = Inr (0, st\<lparr>old_ord := - 1\<rparr>)"
  by (simp add: furc_get_bit_def)

lemma cache_ok_reset: "cache_ok k (st\<lparr>old_ord := - 1\<rparr>)"
  by (simp add: cache_ok_def)

lemma furc_get_bits_ok:
  "cache_ok k st \<Longrightarrow> \<forall>idx \<in> set idxs. unat idx div 64 < length (hash st) \<Longrightarrow>
   \<exists>st'. furc_get_bits k idxs st = Inr (map (stream_bit k) idxs, st') \<and> cache_ok k st' \<and>
         length (hash st') = length (hash st) \<and> reads st' = reads st @ idxs"
proof (induction idxs arbitrary: st)
  case Nil
  then show ?case by simp
next
  case (Cons idx idxs)
  from Cons.prems have b: "unat idx div 64 < length (hash st)" by simp
  from furc_get_bit_ok[OF Cons.prems(1) b] obtain st1 where
    s1: "furc_get_bit (Some k) idx st = Inr (stream_bit k idx, st1)" "cache_ok k st1"
        "length (hash st1) = length (hash st)" "reads st1 = reads st @ [idx]" by blast
  have "\<forall>i \<in> set idxs. unat i div 64 < length (hash st1)" using Cons.prems(2) s1(3) by simp
  from Cons.IH[OF s1(2) this] obtain st2 where
    s2: "furc_get_bits k idxs st1 = Inr (map (stream_bit k) idxs, st2)" "cache_ok k st2"
        "length (hash st2) = length (hash st1)" "reads st2 = reads st1 @ idxs" by blast
  have "furc_get_bits k (idx # idxs) st = Inr (map (stream_bit k) (idx # idxs), st2)"
    using s1(1) s2(1) by simp
  then show ?case using s2 s1 by simp
qed

section \<open>The steps of the decision-tree walk\<close>

lemma furc_depth_inv:
  "unat d \<le> 32 \<Longrightarrow> (\<forall>j < unat d. 2 ^ j < unat m) \<Longrightarrow>
   unat d \<le> unat (furc_depth m d) \<and> unat (furc_depth m d) \<le> 32 \<and>
   (\<forall>j < unat (furc_depth m d). 2 ^ j < unat m) \<and> unat m \<le> 2 ^ unat (furc_depth m d)"
proof (induction m d rule: furc_depth.induct)
  case (1 m d)
  have d64: "unat d < 64" using "1.prems"(1) by simp
  show ?case
  proof (cases "(push_bit (unat d) 1 :: u64) < ucast m")
    case True
    have d32: "unat d < 32" using d64 True by (rule depth_cond_small)
    then have suc: "unat (d + 1) = unat d + 1" by (simp add: unat_plus_one_u32)
    have lt: "2 ^ unat d < unat m" using depth_cond[OF d64, of m] True by blast
    have p1: "unat (d + 1) \<le> 32" using d32 suc by simp
    have p2: "\<forall>j < unat (d + 1). 2 ^ j < unat m"
    proof (intro allI impI)
      fix j assume "j < unat (d + 1)"
      then have "j < unat d \<or> j = unat d" using suc by auto
      then show "2 ^ j < unat m" using lt "1.prems"(2) by auto
    qed
    have eq: "furc_depth m d = furc_depth m (d + 1)" using True by (subst furc_depth.simps) simp
    from "1.IH"[OF True p1 p2] show ?thesis unfolding eq using suc by simp
  next
    case False
    then have eq: "furc_depth m d = d" by (subst furc_depth.simps) simp
    have "\<not> 2 ^ unat d < unat m" using depth_cond[OF d64, of m] False by blast
    then have "unat m \<le> 2 ^ unat d" by simp
    then show ?thesis unfolding eq using "1.prems" by simp
  qed
qed

lemma unat_max_pool: "shift < 32 \<Longrightarrow> unat (furc_maximum_pool_size shift) = 2 ^ shift"
  by (simp add: furc_maximum_pool_size_def unat_two_power)

lemma max_pool_zero: "\<not> shift < 32 \<Longrightarrow> furc_maximum_pool_size shift = 0"
  by (simp add: furc_maximum_pool_size_def)

lemma furc_depth_props:
  assumes m1: "1 < m" and mp: "m \<le> furc_maximum_pool_size shift"
  shows "shift < 32" and "1 \<le> unat (furc_depth m 0)" and "unat (furc_depth m 0) \<le> shift"
    and "2 ^ (unat (furc_depth m 0) - 1) < unat m" and "unat m \<le> 2 ^ shift"
proof -
  let ?d = "unat (furc_depth m 0)"
  have inv: "?d \<le> 32 \<and> (\<forall>j < ?d. 2 ^ j < unat m) \<and> unat m \<le> 2 ^ ?d"
    using furc_depth_inv[of 0 m] by simp
  have um: "1 < unat m" using m1 by (simp add: word_less_nat_alt)
  show s32: "shift < 32"
  proof (rule ccontr)
    assume "\<not> shift < 32"
    then have "m \<le> 0" using mp by (simp add: max_pool_zero)
    then show False using m1 by simp
  qed
  show m2: "unat m \<le> 2 ^ shift" using mp s32 by (simp add: word_le_nat_alt unat_max_pool)
  show d1: "1 \<le> ?d"
  proof (rule ccontr)
    assume "\<not> 1 \<le> ?d"
    then have "?d = 0" by simp
    then show False using inv um by simp
  qed
  then have "?d - 1 < ?d" by simp
  then show "2 ^ (?d - 1) < unat m" using inv by blast
  show "?d \<le> shift"
  proof (rule ccontr)
    assume "\<not> ?d \<le> shift"
    then have "shift < ?d" by simp
    then have "2 ^ shift < unat m" using inv by blast
    then show False using m2 by simp
  qed
qed


lemma rev_upt_step: "x \<le> n - 1 \<Longrightarrow> 1 \<le> n \<Longrightarrow> rev [x..<n] = (n - 1) # rev [x..<n - 1]"
proof -
  assume a: "x \<le> n - 1" "1 \<le> n"
  then have "[x..<n] = [x..<Suc (n - 1)]" by simp
  also have "\<dots> = [x..<n - 1] @ [n - 1]" using a by (simp only: upt_Suc) simp
  finally show ?thesis by simp
qed

lemma pos_in_cache: "unat (a::u32) < 64 * L \<Longrightarrow> unat a div 64 < L"
  by (simp add: less_mult_imp_div_less mult.commute)

lemma furc_descend_ok:
  "cache_ok k st \<Longrightarrow> length (hash st) = L \<Longrightarrow> 1 \<le> unat d \<Longrightarrow> unat a < 64 * L \<Longrightarrow>
   unat d \<le> 64 * L \<Longrightarrow>
   \<exists>ret d' a' st'. furc_descend k d a st = Inr (ret, d', a', st') \<and> cache_ok k st' \<and>
      length (hash st') = L \<and> unat d' \<le> unat d \<and>
      map unat (reads st') = map unat (reads st) @ unat a # rev [max 1 (unat d')..<unat d] \<and>
      (case ret of Some v \<Rightarrow> v = 0 \<and> d' = 0
       | None \<Rightarrow> 1 \<le> unat d' \<and> (if d' = d then a' = a else a' = d'))"
proof (induction k d a st rule: furc_descend.induct)
  case (1 k d a st)
  have "unat a div 64 < length (hash st)" using "1.prems" by (simp add: pos_in_cache)
  from furc_get_bit_ok[OF "1.prems"(1) this] obtain st1 where
    s1: "furc_get_bit (Some k) a st = Inr (stream_bit k a, st1)" "cache_ok k st1"
        "length (hash st1) = length (hash st)" "reads st1 = reads st @ [a]" by blast
  show ?case
  proof (cases "stream_bit k a = 0")
    case False
    have "furc_descend k d a st = Inr (None, d, a, st1)"
      using s1(1) False by (subst furc_descend.simps) simp
    then show ?thesis using s1 "1.prems" by simp
  next
    case True
    show ?thesis
    proof (cases "d - 1 = 0")
      case z: True
      then have d1: "d = 1" by simp
      have "furc_descend k d a st = Inr (Some 0, d - 1, a, st1)"
        using s1(1) True z by (subst furc_descend.simps) simp
      then show ?thesis using s1 "1.prems" d1 by simp
    next
      case nz: False
      have ud: "unat (d - 1) = unat d - 1" using "1.prems"(3) by (simp add: unat_minus_one unat_eq_zero[symmetric] del: unat_eq_zero)
      have ge: "1 \<le> unat (d - 1)" using nz by (metis One_nat_def Suc_leI unat_eq_zero neq0_conv)
      have "\<exists>ret d' a' st'. furc_descend k (d - 1) (d - 1) st1 = Inr (ret, d', a', st') \<and> cache_ok k st' \<and>
        length (hash st') = L \<and> unat d' \<le> unat (d - 1) \<and>
        map unat (reads st') = map unat (reads st1) @ unat (d - 1) # rev [max 1 (unat d')..<unat (d - 1)] \<and>
        (case ret of Some v \<Rightarrow> v = 0 \<and> d' = 0
         | None \<Rightarrow> 1 \<le> unat d' \<and> (if d' = d - 1 then a' = d - 1 else a' = d'))"
      proof (rule "1.IH"[OF s1(1) refl True nz s1(2)])
        show "length (hash st1) = L" using s1(3) "1.prems"(2) by simp
        show "1 \<le> unat (d - 1)" by (rule ge)
        show "unat (d - 1) < 64 * L" using ud "1.prems"(3,5) by simp
        show "unat (d - 1) \<le> 64 * L" using ud "1.prems"(3,5) by simp
      qed
      then obtain ret d' a' st' where r:
        "furc_descend k (d - 1) (d - 1) st1 = Inr (ret, d', a', st')" "cache_ok k st'"
        "length (hash st') = L" "unat d' \<le> unat (d - 1)"
        "map unat (reads st') = map unat (reads st1) @ unat (d - 1) # rev [max 1 (unat d')..<unat (d - 1)]"
        "case ret of Some v \<Rightarrow> v = 0 \<and> d' = 0
         | None \<Rightarrow> 1 \<le> unat d' \<and> (if d' = d - 1 then a' = d - 1 else a' = d')" by blast
      have eq: "furc_descend k d a st = Inr (ret, d', a', st')"
        using s1(1) True nz r(1) by (subst furc_descend.simps) simp
      have le: "max 1 (unat d') \<le> unat d - 1" using r(4) ge ud by simp
      have rv: "rev [max 1 (unat d')..<unat d] = (unat d - 1) # rev [max 1 (unat d')..<unat d - 1]"
        using le "1.prems"(3) by (rule rev_upt_step)
      have rd: "map unat (reads st') = map unat (reads st) @ unat a # rev [max 1 (unat d')..<unat d]"
        using r(5) s1(4) rv ud by simp
      have ne: "d' \<noteq> d" using r(4) ud "1.prems"(3) by auto
      have fin: "case ret of Some v \<Rightarrow> v = 0 \<and> d' = 0
         | None \<Rightarrow> 1 \<le> unat d' \<and> (if d' = d then a' = a else a' = d')"
        using r(6) ne by (auto split: option.splits if_splits)
      have "unat d' \<le> unat d" using r(4) ud by simp
      with eq r(2,3) rd fin show ?thesis by blast
    qed
  qed
qed

lemma or_bit_u32: "unat (num::u32) < 2147483648 \<Longrightarrow> b = 0 \<or> b = 1 \<Longrightarrow> unat (push_bit 1 num OR b) = 2 * unat num + unat b"
proof -
  assume a: "unat (num::u32) < 2147483648" "b = 0 \<or> b = 1"
  have pb: "push_bit 1 num = 2 * num" by (simp add: push_bit_eq_mult)
  have m: "unat (2 * num) = 2 * unat num" using a(1) unat_mult_lem[of 2 num] by simp
  have e: "even (2 * num)" by simp
  show ?thesis
  proof (cases "b = 0")
    case True then show ?thesis unfolding pb using m by simp
  next
    case False
    with a have b: "b = 1" by simp
    have "2 * num OR 1 = 2 * num + 1" using e by (simp add: or_one_eq)
    moreover have "unat (2 * num + 1) = unat (2 * num) + 1" using m a(1) by (simp add: unat_plus_one_u32)
    ultimately show ?thesis unfolding pb b using m by simp
  qed
qed
lemma stream_bit_cases: "stream_bit k a = 0 \<or> stream_bit k a = 1"
  by (simp add: stream_bit_def)
lemma unat_add_nat_u32: "unat (a::u32) + s < 4294967296 \<Longrightarrow> unat (a + of_nat s) = unat a + s"
proof -
  assume a: "unat a + s < 4294967296"
  then have s: "unat (of_nat s :: u32) = s" by (simp add: unat_of_nat)
  then show ?thesis using a unat_add_lem[of a "of_nat s"] by simp
qed
lemma unat_sub_one_u32: "1 \<le> unat (d::u32) \<Longrightarrow> unat (d - 1) = unat d - 1"
  by (simp add: unat_minus_one unat_eq_zero[symmetric] del: unat_eq_zero)

lemma furc_build_ok:
  "cache_ok k st \<Longrightarrow> length (hash st) = L \<Longrightarrow> 0 < s \<Longrightarrow> 1 \<le> unat d \<Longrightarrow>
   unat i \<le> unat d - 1 \<Longrightarrow>
   unat a + (unat d - 1 - unat i) * s \<le> 64 * L \<Longrightarrow>
   unat a + (unat d - 1 - unat i) * s < 4294967296 \<Longrightarrow>
   2 ^ p \<le> unat num \<Longrightarrow> unat num < 2 ^ (p + 1) \<Longrightarrow> p + (unat d - 1 - unat i) < 32 \<Longrightarrow>
   \<exists>num' a' st'. furc_build s k d i num a st = Inr (num', a', st') \<and> cache_ok k st' \<and>
      length (hash st') = L \<and> unat a' = unat a + (unat d - 1 - unat i) * s \<and>
      map unat (reads st') =
        map unat (reads st) @ map (\<lambda>j. unat a + j * s) [0..<unat d - 1 - unat i] \<and>
      2 ^ (p + (unat d - 1 - unat i)) \<le> unat num' \<and>
      unat num' < 2 ^ (p + (unat d - 1 - unat i) + 1)"
proof (induction s k d i num a st arbitrary: p rule: furc_build.induct)
  case (1 s k d i num a st)
  let ?n = "unat d - 1 - unat i"
  have ud: "unat (d - 1) = unat d - 1" using "1.prems"(4) by (rule unat_sub_one_u32)
  show ?case
  proof (cases "i < d - 1")
    case False
    then have n0: "?n = 0" using ud by (simp add: word_less_nat_alt)
    have "furc_build s k d i num a st = Inr (num, a, st)"
      using False by (subst furc_build.simps) simp
    then show ?thesis using "1.prems" n0 by simp
  next
    case True
    then have lt: "unat i < unat d - 1" using ud by (simp add: word_less_nat_alt)
    then have npos: "?n = Suc (?n - 1)" by simp
    have nge: "1 \<le> ?n" using lt by linarith
    have sle: "s \<le> ?n * s" using mult_le_mono1[OF nge, of s] by simp
    have ab: "unat a < 64 * L" using "1.prems"(3,6) sle by linarith
    then have "unat a div 64 < length (hash st)" using "1.prems"(2) by (simp add: pos_in_cache)
    from furc_get_bit_ok[OF "1.prems"(1) this] obtain st1 where
      s1: "furc_get_bit (Some k) a st = Inr (stream_bit k a, st1)" "cache_ok k st1"
        "length (hash st1) = length (hash st)" "reads st1 = reads st @ [a]" by blast
    let ?b = "stream_bit k a"
    let ?num1 = "push_bit 1 num OR ?b"
    let ?a1 = "a + of_nat s"
    have ui: "unat (i + 1) = unat i + 1"
      using lt unat_lt_u32[of d] by (intro unat_plus_one_u32) simp
    have n1: "unat d - 1 - unat (i + 1) = ?n - 1" using ui by simp
    have ns: "?n * s = s + (?n - 1) * s" using lt by (metis npos mult_Suc)
    have ua: "unat ?a1 = unat a + s" using "1.prems"(7) sle by (intro unat_add_nat_u32) linarith
    have "p + 1 \<le> 31" using "1.prems"(10) lt by simp
    then have "(2::nat) ^ (p + 1) \<le> 2 ^ 31" by (intro power_increasing) simp_all
    then have nb: "unat num < 2147483648" using "1.prems"(9) by simp
    have un: "unat ?num1 = 2 * unat num + unat ?b"
      using nb stream_bit_cases by (rule or_bit_u32)
    have ubl: "unat ?b \<le> 1" using stream_bit_cases[of k a] by auto
    have lo: "2 ^ (p + 1) \<le> unat ?num1" using un "1.prems"(8) by simp
    have hi: "unat ?num1 < 2 ^ (p + 1 + 1)" using un "1.prems"(9) ubl by simp
    have "\<exists>num' a' st'. furc_build s k d (i + 1) ?num1 ?a1 st1 = Inr (num', a', st') \<and> cache_ok k st' \<and>
      length (hash st') = L \<and> unat a' = unat ?a1 + (unat d - 1 - unat (i + 1)) * s \<and>
      map unat (reads st') =
        map unat (reads st1) @ map (\<lambda>j. unat ?a1 + j * s) [0..<unat d - 1 - unat (i + 1)] \<and>
      2 ^ (p + 1 + (unat d - 1 - unat (i + 1))) \<le> unat num' \<and>
      unat num' < 2 ^ (p + 1 + (unat d - 1 - unat (i + 1)) + 1)"
    proof (rule "1.IH"[OF True s1(1) refl s1(2)])
      show "length (hash st1) = L" using s1(3) "1.prems"(2) by simp
      show "0 < s" by (rule "1.prems"(3))
      show "1 \<le> unat d" by (rule "1.prems"(4))
      show "unat (i + 1) \<le> unat d - 1" using ui lt by simp
      show "unat ?a1 + (unat d - 1 - unat (i + 1)) * s \<le> 64 * L"
        using "1.prems"(6) ua n1 ns by simp
      show "unat ?a1 + (unat d - 1 - unat (i + 1)) * s < 4294967296"
        using "1.prems"(7) ua n1 ns by simp
      show "2 ^ (p + 1) \<le> unat ?num1" by (rule lo)
      show "unat ?num1 < 2 ^ (p + 1 + 1)" by (rule hi)
      show "p + 1 + (unat d - 1 - unat (i + 1)) < 32" using "1.prems"(10) n1 lt by simp
    qed
    then obtain num' a' st' where r:
      "furc_build s k d (i + 1) ?num1 ?a1 st1 = Inr (num', a', st')" "cache_ok k st'"
      "length (hash st') = L" "unat a' = unat ?a1 + (unat d - 1 - unat (i + 1)) * s"
      "map unat (reads st') =
        map unat (reads st1) @ map (\<lambda>j. unat ?a1 + j * s) [0..<unat d - 1 - unat (i + 1)]"
      "2 ^ (p + 1 + (unat d - 1 - unat (i + 1))) \<le> unat num'"
      "unat num' < 2 ^ (p + 1 + (unat d - 1 - unat (i + 1)) + 1)" by blast
    have eq: "furc_build s k d i num a st = Inr (num', a', st')"
      using True s1(1) r(1) by (subst furc_build.simps) simp
    have pn: "p + 1 + (?n - 1) = p + ?n" using lt by simp
    have a': "unat a' = unat a + ?n * s" using r(4) ua n1 ns by simp
    have "map (\<lambda>j. unat a + j * s) [0..<?n] = map (\<lambda>j. unat a + j * s) [0..<Suc (?n - 1)]"
      using npos by simp
    also have "\<dots> = unat a # map (\<lambda>j. unat a + s + j * s) [0..<?n - 1]"
      by (simp only: map_upt_Suc) (simp add: add.assoc)
    finally have mp: "map (\<lambda>j. unat a + j * s) [0..<?n]
         = unat a # map (\<lambda>j. unat a + s + j * s) [0..<?n - 1]" .
    have rd: "map unat (reads st') = map unat (reads st) @ map (\<lambda>j. unat a + j * s) [0..<?n]"
      using r(5) s1(4) ua n1 mp by simp
    have lo': "2 ^ (p + ?n) \<le> unat num'" using r(6) by (simp only: n1 pn)
    have hi': "unat num' < 2 ^ (p + ?n + 1)" using r(7) by (simp only: n1 pn)
    from eq r(2,3) a' rd lo' hi' show ?thesis by blast
  qed
qed

lemma prog_distinct: "0 < s \<Longrightarrow> distinct (map (\<lambda>j. c + j * s) [0..<n::nat])"
  by (simp add: distinct_map inj_on_def)

lemma prog_split:
  "map (\<lambda>j. c + j * s) [0..<n + Suc r]
     = map (\<lambda>j. c + j * s) [0..<n] @ (c + n * s) # map (\<lambda>j. (c + n * s) + s + j * s) [0..<r::nat]"
proof -
  have "[0..<n + Suc r] = [0..<n] @ [n..<n + Suc r]" by (rule upt_add_eq_append) simp
  also have "[n..<n + Suc r] = n # [Suc n..<n + Suc r]" by (rule upt_conv_Cons) simp
  also have "[Suc n..<n + Suc r] = map (\<lambda>i. i + Suc n) [0..<r]"
    using map_add_upt[of "Suc n" r] by (simp add: add.commute)
  finally have "[0..<n + Suc r] = [0..<n] @ n # map (\<lambda>i. i + Suc n) [0..<r]" .
  then have "map (\<lambda>j. c + j * s) [0..<n + Suc r]
      = map (\<lambda>j. c + j * s) [0..<n] @ (c + n * s) # map (\<lambda>j. c + (j + Suc n) * s) [0..<r]"
    by (simp add: comp_def)
  moreover have "(\<lambda>j. c + (j + Suc n) * s) = (\<lambda>j. (c + n * s) + s + j * s)"
    by (rule ext) (simp add: algebra_simps)
  ultimately show ?thesis by simp
qed

lemma residue_clash:
  assumes "1 \<le> d'" "d' < d0" "d0 \<le> s" "d0 + j * s = d' + s + j' * (s::nat)"
  shows False
proof -
  have "(d0 + j * s) mod s = d0 mod s" by simp
  moreover have "(d' + s + j' * s) mod s = d' mod s"
  proof -
    have "d' + s + j' * s = d' + Suc j' * s" by simp
    then show ?thesis by (simp only: mod_mult_self1)
  qed
  moreover have "d' mod s = d'" using assms by simp
  ultimately have e: "d0 mod s = d'" using assms(4) by simp
  show False
  proof (cases "d0 = s")
    case True then show False using e assms(1) by simp
  next
    case False
    then have "d0 mod s = d0" using assms(3) by simp
    then show False using e assms(2) by simp
  qed
qed

lemma walk_reads_distinct:
  assumes s: "0 < s" and ds: "d0 \<le> s" and x: "1 \<le> x"
    and r: "r = 0 \<or> (1 \<le> d' \<and> d' < d0)"
  shows "distinct (map (\<lambda>j. d0 + j * s) [0..<N] @ rev [x..<d0]
                   @ map (\<lambda>j. d' + s + j * s) [0..<r::nat])"
proof -
  have d1: "distinct (map (\<lambda>j. d0 + j * s) [0..<N])" using s by (rule prog_distinct)
  have d2: "distinct (rev [x..<d0])" by simp
  have d3: "distinct (map (\<lambda>j. d' + s + j * s) [0..<r])" using s by (rule prog_distinct)
  have i12: "set (map (\<lambda>j. d0 + j * s) [0..<N]) \<inter> set (rev [x..<d0]) = {}" by auto
  have i23: "set (rev [x..<d0]) \<inter> set (map (\<lambda>j. d' + s + j * s) [0..<r]) = {}"
  proof -
    have "\<not> d' + s + j * s < d0" for j using ds by linarith
    then show ?thesis by auto
  qed
  have i13: "set (map (\<lambda>j. d0 + j * s) [0..<N]) \<inter> set (map (\<lambda>j. d' + s + j * s) [0..<r]) = {}"
  proof (rule ccontr)
    assume "\<not> ?thesis"
    then obtain j j' where jj: "j' < r" "d0 + j * s = d' + s + j' * s" by auto
    then have "1 \<le> d' \<and> d' < d0" using r by auto
    then show False using residue_clash[of d' d0 s j j'] ds jj(2) by simp
  qed
  show ?thesis using d1 d2 d3 i12 i23 i13 by (simp add: Int_Un_distrib)
qed


lemma furc_tries_ok:
  assumes s: "0 < s" and d1: "1 \<le> unat d" and ds: "unat d \<le> s" and s32: "s < 32"
    and mlow: "2 ^ (unat d - 1) < unat m"
    and bL: "unat d + unat max_tries * (unat d * s) \<le> 64 * L"
    and b32: "unat d + unat max_tries * (unat d * s) < 4294967296"
  shows "cache_ok k st \<Longrightarrow> length (hash st) = L \<Longrightarrow> unat tries \<le> unat max_tries \<Longrightarrow>
    unat a = unat d + unat tries * (unat d * s) \<Longrightarrow>
    map unat (reads st) = map (\<lambda>j. unat d + j * s) [0..<unat tries * unat d] \<Longrightarrow>
    \<exists>r st'. furc_tries s max_tries k m tries d a st = Inr (r, st') \<and> r < m \<and> cache_ok k st' \<and>
       length (hash st') = L \<and> distinct (map unat (reads st')) \<and>
       length (reads st') \<le> unat max_tries * unat d"
proof (induction "unat max_tries - unat tries" arbitrary: tries a st)
  case 0
  then have tT: "unat tries = unat max_tries" by simp
  then have "\<not> tries < max_tries" by (simp add: word_less_nat_alt)
  then have eq: "furc_tries s max_tries k m tries d a st = Inr (0, st)"
    by (subst furc_tries.simps) simp
  have "1 < unat m" using mlow by (metis One_nat_def less_le_trans not_less one_le_numeral one_le_power)
  then have m0: "0 < m" by (simp add: word_less_nat_alt)
  have "distinct (map unat (reads st))" using "0.prems"(5) s by (simp add: prog_distinct)
  moreover have "length (map unat (reads st)) = unat max_tries * unat d"
    using "0.prems"(5) tT by simp
  then have "length (reads st) \<le> unat max_tries * unat d" by simp
  ultimately show ?case using eq m0 "0.prems"(1,2) by simp
next
  case (Suc n)
  let ?d0 = "unat d" and ?T = "unat max_tries" and ?t = "unat tries"
  let ?Q = "unat d * s"
  let ?P = "map (\<lambda>j. ?d0 + j * s) [0..<?t * ?d0]"
  have tlt: "?t < ?T" using Suc.hyps(2) by simp
  then have cond: "tries < max_tries" by (simp add: word_less_nat_alt)
  have "1 < unat m" using mlow by (metis One_nat_def less_le_trans not_less one_le_numeral one_le_power)
  then have m0: "0 < m" by (simp add: word_less_nat_alt)
  have sQ: "s \<le> ?Q" using mult_le_mono1[OF d1, of s] by simp
  have tQ: "?t * ?Q + ?Q \<le> ?T * ?Q"
  proof -
    have "Suc ?t * ?Q \<le> ?T * ?Q" using tlt by (intro mult_le_mono1) simp
    then show ?thesis by simp
  qed
  have ua: "unat a = ?d0 + ?t * ?Q" by (rule Suc.prems(4))
  have aL: "unat a + ?Q \<le> 64 * L" using ua tQ bL by linarith
  have a32: "unat a + ?Q < 4294967296" using ua tQ b32 by linarith
  have tdd: "?t * ?d0 * s = ?t * ?Q" by simp
  have len_ok: "Suc ?t * ?d0 \<le> ?T * ?d0" using tlt by (intro mult_le_mono1) simp
  have "unat a < 64 * L" using aL sQ s by linarith
  moreover have "?d0 \<le> 64 * L" using bL by linarith
  ultimately have "\<exists>ret d' a' st'. furc_descend k d a st = Inr (ret, d', a', st') \<and> cache_ok k st' \<and>
      length (hash st') = L \<and> unat d' \<le> unat d \<and>
      map unat (reads st') = map unat (reads st) @ unat a # rev [max 1 (unat d')..<unat d] \<and>
      (case ret of Some v \<Rightarrow> v = 0 \<and> d' = 0
       | None \<Rightarrow> 1 \<le> unat d' \<and> (if d' = d then a' = a else a' = d'))"
    using Suc.prems(1,2) d1 by (intro furc_descend_ok)
  then obtain ret d' a' st1 where dr:
    "furc_descend k d a st = Inr (ret, d', a', st1)" "cache_ok k st1" "length (hash st1) = L"
    "unat d' \<le> unat d"
    "map unat (reads st1) = map unat (reads st) @ unat a # rev [max 1 (unat d')..<unat d]"
    "case ret of Some v \<Rightarrow> v = 0 \<and> d' = 0
       | None \<Rightarrow> 1 \<le> unat d' \<and> (if d' = d then a' = a else a' = d')" by blast
  have PA: "?P @ [unat a] = map (\<lambda>j. ?d0 + j * s) [0..<Suc (?t * ?d0)]"
    using ua by (simp add: mult.assoc)
  show ?case
  proof (cases ret)
    case (Some v)
    with dr(6) have v: "v = 0" "d' = 0" by simp_all
    have eq: "furc_tries s max_tries k m tries d a st = Inr (0, st1)"
      using cond dr(1) Some v by (subst furc_tries.simps) simp
    have rd: "map unat (reads st1) = map (\<lambda>j. ?d0 + j * s) [0..<Suc (?t * ?d0)] @ rev [1..<?d0]
                @ map (\<lambda>j. 0 + s + j * s) [0..<0]"
      using dr(5) v Suc.prems(5) PA by simp
    have "distinct (map unat (reads st1))" unfolding rd
      using s ds by (intro walk_reads_distinct) simp_all
    moreover have "length (map unat (reads st1)) = Suc ?t * ?d0"
      unfolding rd using d1 by simp
    then have "length (reads st1) \<le> ?T * ?d0" using len_ok by simp
    ultimately show ?thesis using eq m0 dr(2,3) by simp
  next
    case None
    with dr(6) have d'1: "1 \<le> unat d'" and a'eq: "if d' = d then a' = a else a' = d'" by simp_all
    let ?n = "unat d' - 1"
    have d'le: "unat d' \<le> ?d0" by (rule dr(4))
    have ua': "unat a' + unat d' * s \<le> unat a + ?Q"
    proof (cases "d' = d")
      case True then show ?thesis using a'eq by simp
    next
      case False
      then have "unat a' = unat d'" using a'eq by simp
      moreover have "unat d' * s \<le> ?Q" using d'le by (intro mult_le_mono1)
      ultimately show ?thesis using ua d'le by linarith
    qed
    have d's: "unat d' * s = s + ?n * s" using d'1 by (metis Suc_pred' mult_Suc One_nat_def Suc_le_eq)
    have uas: "unat (a' + of_nat s) = unat a' + s"
      using ua' d's a32 by (intro unat_add_nat_u32) linarith
    have "\<exists>num' a'' st'. furc_build s k d' 0 1 (a' + of_nat s) st1 = Inr (num', a'', st') \<and> cache_ok k st' \<and>
      length (hash st') = L \<and> unat a'' = unat (a' + of_nat s) + (unat d' - 1 - unat (0::u32)) * s \<and>
      map unat (reads st') =
        map unat (reads st1) @ map (\<lambda>j. unat (a' + of_nat s) + j * s) [0..<unat d' - 1 - unat (0::u32)] \<and>
      2 ^ (0 + (unat d' - 1 - unat (0::u32))) \<le> unat num' \<and>
      unat num' < 2 ^ (0 + (unat d' - 1 - unat (0::u32)) + 1)"
    proof (rule furc_build_ok[OF dr(2,3) s d'1])
      show "unat (0::u32) \<le> unat d' - 1" by simp
      show "unat (a' + of_nat s) + (unat d' - 1 - unat (0::u32)) * s \<le> 64 * L"
        using uas ua' d's aL by simp
      show "unat (a' + of_nat s) + (unat d' - 1 - unat (0::u32)) * s < 4294967296"
        using uas ua' d's a32 by simp
      show "2 ^ 0 \<le> unat (1::u32)" by simp
      show "unat (1::u32) < 2 ^ (0 + 1)" by simp
      show "0 + (unat d' - 1 - unat (0::u32)) < 32" using d'le ds s32 by simp
    qed
    then obtain num' a'' st2 where br:
      "furc_build s k d' 0 1 (a' + of_nat s) st1 = Inr (num', a'', st2)" "cache_ok k st2"
      "length (hash st2) = L" "unat a'' = unat a' + s + ?n * s"
      "map unat (reads st2) = map unat (reads st1) @ map (\<lambda>j. unat a' + s + j * s) [0..<?n]"
      "2 ^ ?n \<le> unat num'" "unat num' < 2 ^ (?n + 1)"
      using uas by auto
    show ?thesis
    proof (cases "d' = d")
      case True
      then have a'a: "a' = a" using a'eq by simp
      have rd: "map unat (reads st2) = map (\<lambda>j. ?d0 + j * s) [0..<Suc ?t * ?d0]"
      proof -
        have "Suc ?t * ?d0 = ?t * ?d0 + Suc (?d0 - 1)" using d1 by simp
        then have "map (\<lambda>j. ?d0 + j * s) [0..<Suc ?t * ?d0]
          = ?P @ (?d0 + ?t * ?d0 * s) # map (\<lambda>j. (?d0 + ?t * ?d0 * s) + s + j * s) [0..<?d0 - 1]"
          by (simp only: prog_split)
        moreover have "map unat (reads st2) = ?P @ unat a # map (\<lambda>j. unat a + s + j * s) [0..<?d0 - 1]"
          using br(5) dr(5) True a'a Suc.prems(5) by simp
        ultimately show ?thesis using ua by (simp add: mult.assoc)
      qed
      have dist: "distinct (map unat (reads st2))" unfolding rd using s by (rule prog_distinct)
      have "length (map unat (reads st2)) = Suc ?t * ?d0" unfolding rd by simp
      then have len: "length (reads st2) \<le> ?T * ?d0" using len_ok by simp
      show ?thesis
      proof (cases "num' < m")
        case lt: True
        have eq: "furc_tries s max_tries k m tries d a st = Inr (num', st2)"
          using cond dr(1) None br(1) lt by (subst furc_tries.simps) simp
        show ?thesis using eq lt br(2,3) dist len by simp
      next
        case ge: False
        have ut: "unat (tries + 1) = ?t + 1"
          using tlt unat_lt_u32[of max_tries] by (intro unat_plus_one_u32) simp
        have eq: "furc_tries s max_tries k m tries d a st
                    = furc_tries s max_tries k m (tries + 1) d a'' st2"
          using cond dr(1) None br(1) ge True by (subst furc_tries.simps) simp
        have "\<exists>r st'. furc_tries s max_tries k m (tries + 1) d a'' st2 = Inr (r, st') \<and> r < m \<and>
            cache_ok k st' \<and> length (hash st') = L \<and> distinct (map unat (reads st')) \<and>
            length (reads st') \<le> unat max_tries * unat d"
        proof (rule Suc.hyps(1))
          show "n = ?T - unat (tries + 1)" using Suc.hyps(2) ut by simp
          show "cache_ok k st2" by (rule br(2))
          show "length (hash st2) = L" by (rule br(3))
          show "unat (tries + 1) \<le> ?T" using ut tlt by simp
          show "unat a'' = ?d0 + unat (tries + 1) * ?Q"
            using br(4) True a'a ua d's ut by simp
          show "map unat (reads st2) = map (\<lambda>j. ?d0 + j * s) [0..<unat (tries + 1) * ?d0]"
            using rd ut by simp
        qed
        then show ?thesis unfolding eq .
      qed
    next
      case False
      then have a'd: "a' = d'" using a'eq by simp
      have d'lt: "unat d' < ?d0" using d'le False by (simp add: word_unat_eq_iff)
      have "?n + 1 \<le> ?d0 - 1" using d'lt d'1 by simp
      then have "(2::nat) ^ (?n + 1) \<le> 2 ^ (?d0 - 1)" by (intro power_increasing) simp_all
      then have "unat num' < unat m" using br(7) mlow by linarith
      then have lt: "num' < m" by (simp add: word_less_nat_alt)
      have eq: "furc_tries s max_tries k m tries d a st = Inr (num', st2)"
        using cond dr(1) None br(1) lt by (subst furc_tries.simps) simp
      have rd: "map unat (reads st2) = map (\<lambda>j. ?d0 + j * s) [0..<Suc (?t * ?d0)]
                  @ rev [unat d'..<?d0] @ map (\<lambda>j. unat d' + s + j * s) [0..<?n]"
        using br(5) dr(5) a'd d'1 Suc.prems(5) PA by (simp add: max_def)
      have dist: "distinct (map unat (reads st2))" unfolding rd
        using s ds d'1 d'lt by (intro walk_reads_distinct) simp_all
      have "length (map unat (reads st2)) = Suc ?t * ?d0"
        unfolding rd using d'1 d'lt by simp
      then have len: "length (reads st2) \<le> ?T * ?d0" using len_ok by simp
      show ?thesis using eq lt br(2,3) dist len by simp
    qed
  qed
qed

lemma furc_hash_array_trivial:
  "m \<le> 1 \<Longrightarrow> m \<le> furc_maximum_pool_size shift \<Longrightarrow>
   furc_hash_array shift max_tries k m h = Inr (0, \<lparr>hash = h, old_ord = 0, reads = []\<rparr>)"
proof -
  assume a: "m \<le> 1" "m \<le> furc_maximum_pool_size shift"
  have c1: "\<not> furc_maximum_pool_size shift < m" using a(2) by simp
  show ?thesis by (simp add: furc_hash_array_def Let_def c1 a(1))
qed

lemma furc_hash_array_ok:
  assumes m1: "1 < m" and mp: "m \<le> furc_maximum_pool_size shift"
    and fits: "furc_fits shift max_tries (length h)"
  shows "\<exists>r st'. furc_hash_array shift max_tries k m h = Inr (r, st') \<and> r < m \<and>
           cache_ok k st' \<and> length (hash st') = length h \<and> distinct (reads st') \<and>
           length (reads st') \<le> unat max_tries * unat (furc_depth m 0)"
proof -
  let ?d = "furc_depth m 0"
  let ?T = "unat max_tries"
  let ?st = "\<lparr>hash = h, old_ord = - 1, reads = []\<rparr>"
  note dp = furc_depth_props[OF m1 mp]
  have s0: "0 < shift" using dp(2,3) by simp
  have q: "unat ?d * shift \<le> shift * shift" using dp(3) by (intro mult_le_mono1)
  then have "?T * (unat ?d * shift) \<le> ?T * (shift * shift)" by (intro mult_le_mono2)
  then have le: "unat ?d + ?T * (unat ?d * shift) \<le> shift + ?T * (shift * shift)"
    using dp(3) by linarith
  have bL: "unat ?d + ?T * (unat ?d * shift) \<le> 64 * length h"
    and b32: "unat ?d + ?T * (unat ?d * shift) < 4294967296"
    using le fits by (simp_all add: furc_fits_def)
  have ok: "cache_ok k ?st" by (simp add: cache_ok_def)
  have "\<exists>r st'. furc_tries shift max_tries k m 0 ?d ?d ?st = Inr (r, st') \<and> r < m \<and> cache_ok k st' \<and>
       length (hash st') = length h \<and> distinct (map unat (reads st')) \<and>
       length (reads st') \<le> unat max_tries * unat ?d"
  proof (rule furc_tries_ok[OF s0 dp(2,3,1,4) bL b32 ok])
    show "length (hash ?st) = length h" by simp
    show "unat (0::u32) \<le> ?T" by simp
    show "unat ?d = unat ?d + unat (0::u32) * (unat ?d * shift)" by simp
    show "map unat (reads ?st) = map (\<lambda>j. unat ?d + j * shift) [0..<unat (0::u32) * unat ?d]" by simp
  qed
  then obtain r st' where r: "furc_tries shift max_tries k m 0 ?d ?d ?st = Inr (r, st')" "r < m"
    "cache_ok k st'" "length (hash st') = length h" "distinct (map unat (reads st'))"
    "length (reads st') \<le> unat max_tries * unat ?d" by blast
  have eq: "furc_hash_array shift max_tries k m h = furc_tries shift max_tries k m 0 ?d ?d ?st"
  proof -
    have c1: "\<not> furc_maximum_pool_size shift < m" using mp by simp
    have c2: "\<not> m \<le> 1" using m1 by simp
    show ?thesis by (simp add: furc_hash_array_def furc_get_bit_reset Let_def c1 c2)
  qed
  have "distinct (reads st')" using r(5) by (simp add: distinct_map)
  with r eq show ?thesis by simp
qed

section \<open>The result does not depend on what the array held\<close>

lemma furc_fill_length: "furc_fill k n ord h = Inr h' \<Longrightarrow> length h' = length h"
proof (induction k n ord h rule: furc_fill.induct)
  case (1 k n ord h)
  show ?case
  proof (cases "n \<le> ord")
    case False
    then have "furc_fill k n ord h = Inr h" by (subst furc_fill.simps) simp
    with "1.prems" show ?thesis by simp
  next
    case True
    show ?thesis
    proof (cases "n < 0 \<or> int (length h) \<le> n")
      case oob: True
      then have "furc_fill k n ord h = Inl OutOfBounds" using True by (subst furc_fill.simps) simp
      with "1.prems" show ?thesis by simp
    next
      case inb: False
      let ?h = "h[nat n := (if n = 0 then murmur_hash_64A k SEED
                             else murmur_rehash_64A (h ! nat (n - 1)))]"
      have "furc_fill k n ord h = furc_fill k (n + 1) ord ?h"
        using True inb by (subst furc_fill.simps) simp
      with "1.prems" have "furc_fill k (n + 1) ord ?h = Inr h'" by simp
      from "1.IH"[OF True inb this] show ?thesis by simp
    qed
  qed
qed

lemma furc_get_bit_sound:
  assumes ok: "cache_ok k st" and r: "furc_get_bit (Some k) idx st = Inr (b, st')"
  shows "b = stream_bit k idx \<and> cache_ok k st'"
proof -
  have "unat idx div 64 < length (hash st)"
  proof (cases "old_ord st < uint (drop_bit 6 idx)")
    case True
    show ?thesis
    proof (cases "furc_fill k (old_ord st + 1) (uint (drop_bit 6 idx)) (hash st)")
      case (Inl e)
      then show ?thesis using r True by (simp add: furc_get_bit_def)
    next
      case (Inr h)
      then have "length h = length (hash st)" by (rule furc_fill_length)
      moreover have "\<not> int (length h) \<le> uint (drop_bit 6 idx)"
        using r True Inr by (auto simp add: furc_get_bit_def split: if_splits)
      ultimately show ?thesis by (simp add: ord_eq)
    qed
  next
    case False
    then have "\<not> int (length (hash st)) \<le> uint (drop_bit 6 idx)"
      using r by (auto simp add: furc_get_bit_def split: if_splits)
    then show ?thesis by (simp add: ord_eq)
  qed
  from furc_get_bit_ok[OF ok this] r show ?thesis by auto
qed

lemma furc_descend_agree:
  "cache_ok k st1 \<Longrightarrow> cache_ok k st2 \<Longrightarrow>
   furc_descend k d a st1 = Inr (r1, d1, a1, s1) \<Longrightarrow>
   furc_descend k d a st2 = Inr (r2, d2, a2, s2) \<Longrightarrow>
   r1 = r2 \<and> d1 = d2 \<and> a1 = a2 \<and> cache_ok k s1 \<and> cache_ok k s2"
proof (induction k d a st1 arbitrary: st2 rule: furc_descend.induct)
  case (1 k d a st1)
  from "1.prems"(3) obtain b1 t1 where g1: "furc_get_bit (Some k) a st1 = Inr (b1, t1)"
    by (subst (asm) furc_descend.simps) (auto split: sum.splits)
  from "1.prems"(4) obtain b2 t2 where g2: "furc_get_bit (Some k) a st2 = Inr (b2, t2)"
    by (subst (asm) furc_descend.simps) (auto split: sum.splits)
  from furc_get_bit_sound[OF "1.prems"(1) g1] have b1: "b1 = stream_bit k a" "cache_ok k t1" by simp_all
  from furc_get_bit_sound[OF "1.prems"(2) g2] have b2: "b2 = stream_bit k a" "cache_ok k t2" by simp_all
  have e1: "furc_descend k d a st1 =
      (if b1 = 0 then (if d - 1 = 0 then Inr (Some 0, d - 1, a, t1) else furc_descend k (d - 1) (d - 1) t1)
       else Inr (None, d, a, t1))" using g1 by (subst furc_descend.simps) simp
  have e2: "furc_descend k d a st2 =
      (if b1 = 0 then (if d - 1 = 0 then Inr (Some 0, d - 1, a, t2) else furc_descend k (d - 1) (d - 1) t2)
       else Inr (None, d, a, t2))" using g2 b1 b2 by (subst furc_descend.simps) simp
  show ?case
  proof (cases "b1 = 0 \<and> d - 1 \<noteq> 0")
    case False
    then show ?thesis using e1 e2 "1.prems"(3,4) b1 b2 by (auto split: if_splits)
  next
    case True
    then have z: "b1 = 0" and nz: "d - 1 \<noteq> 0" by simp_all
    have r1: "furc_descend k (d - 1) (d - 1) t1 = Inr (r1, d1, a1, s1)"
      using e1 "1.prems"(3) True by simp
    have r2: "furc_descend k (d - 1) (d - 1) t2 = Inr (r2, d2, a2, s2)"
      using e2 "1.prems"(4) True by simp
    from "1.IH"[OF g1 refl z nz b1(2) b2(2) r1 r2] show ?thesis .
  qed
qed

lemma furc_build_agree:
  "cache_ok k st1 \<Longrightarrow> cache_ok k st2 \<Longrightarrow>
   furc_build s k d i num a st1 = Inr (n1, a1, s1) \<Longrightarrow>
   furc_build s k d i num a st2 = Inr (n2, a2, s2) \<Longrightarrow>
   n1 = n2 \<and> a1 = a2 \<and> cache_ok k s1 \<and> cache_ok k s2"
proof (induction s k d i num a st1 arbitrary: st2 rule: furc_build.induct)
  case (1 s k d i num a st1)
  show ?case
  proof (cases "i < d - 1")
    case False
    then have "furc_build s k d i num a st1 = Inr (num, a, st1)"
      "furc_build s k d i num a st2 = Inr (num, a, st2)"
      by (subst furc_build.simps, simp)+
    then show ?thesis using "1.prems" by simp
  next
    case True
    from "1.prems"(3) True obtain b1 t1 where g1: "furc_get_bit (Some k) a st1 = Inr (b1, t1)"
      by (subst (asm) furc_build.simps) (auto split: sum.splits)
    from "1.prems"(4) True obtain b2 t2 where g2: "furc_get_bit (Some k) a st2 = Inr (b2, t2)"
      by (subst (asm) furc_build.simps) (auto split: sum.splits)
    from furc_get_bit_sound[OF "1.prems"(1) g1] have b1: "b1 = stream_bit k a" "cache_ok k t1" by simp_all
    from furc_get_bit_sound[OF "1.prems"(2) g2] have b2: "b2 = stream_bit k a" "cache_ok k t2" by simp_all
    have e1: "furc_build s k d i num a st1
        = furc_build s k d (i + 1) (push_bit 1 num OR b1) (a + of_nat s) t1"
      using g1 True by (subst furc_build.simps) simp
    have e2: "furc_build s k d i num a st2
        = furc_build s k d (i + 1) (push_bit 1 num OR b1) (a + of_nat s) t2"
      using g2 True b1 b2 by (subst furc_build.simps) simp
    have r1: "furc_build s k d (i + 1) (push_bit 1 num OR b1) (a + of_nat s) t1 = Inr (n1, a1, s1)"
      using e1 "1.prems"(3) by simp
    have r2: "furc_build s k d (i + 1) (push_bit 1 num OR b1) (a + of_nat s) t2 = Inr (n2, a2, s2)"
      using e2 "1.prems"(4) by simp
    from "1.IH"[OF True g1 refl b1(2) b2(2) r1 r2] show ?thesis .
  qed
qed


lemma furc_tries_agree:
  "cache_ok k st1 \<Longrightarrow> cache_ok k st2 \<Longrightarrow>
   furc_tries s max_tries k m tries d a st1 = Inr (r1, s1) \<Longrightarrow>
   furc_tries s max_tries k m tries d a st2 = Inr (r2, s2) \<Longrightarrow> r1 = r2"
proof (induction "unat max_tries - unat tries" arbitrary: tries d a st1 st2)
  case 0
  then have "\<not> tries < max_tries" by (simp add: word_less_nat_alt)
  then have "furc_tries s max_tries k m tries d a st1 = Inr (0, st1)"
    "furc_tries s max_tries k m tries d a st2 = Inr (0, st2)"
    by (subst furc_tries.simps, simp)+
  then show ?case using "0.prems" by simp
next
  case (Suc n)
  then have cond: "tries < max_tries" by (simp add: word_less_nat_alt)
  from Suc.prems(3) cond obtain x1 d1 a1 t1 where g1: "furc_descend k d a st1 = Inr (x1, d1, a1, t1)"
    by (subst (asm) furc_tries.simps) (auto split: sum.splits)
  from Suc.prems(4) cond obtain x2 d2 a2 t2 where g2: "furc_descend k d a st2 = Inr (x2, d2, a2, t2)"
    by (subst (asm) furc_tries.simps) (auto split: sum.splits)
  from furc_descend_agree[OF Suc.prems(1,2) g1 g2]
  have ag: "x1 = x2" "d1 = d2" "a1 = a2" "cache_ok k t1" "cache_ok k t2" by simp_all
  show ?case
  proof (cases x1)
    case (Some v)
    have "furc_tries s max_tries k m tries d a st1 = Inr (v, t1)"
      using cond g1 Some by (subst furc_tries.simps) simp
    moreover have "furc_tries s max_tries k m tries d a st2 = Inr (v, t2)"
      using cond g2 Some ag by (subst furc_tries.simps) simp
    ultimately show ?thesis using Suc.prems by simp
  next
    case None
    from Suc.prems(3) cond g1 None obtain n1 b1 u1 where
      h1: "furc_build s k d1 0 1 (a1 + of_nat s) t1 = Inr (n1, b1, u1)"
      by (subst (asm) furc_tries.simps) (auto split: sum.splits)
    from Suc.prems(4) cond g2 None ag obtain n2 b2 u2 where
      h2: "furc_build s k d1 0 1 (a1 + of_nat s) t2 = Inr (n2, b2, u2)"
      by (subst (asm) furc_tries.simps) (auto split: sum.splits)
    from furc_build_agree[OF ag(4,5) h1 h2]
    have bg: "n1 = n2" "b1 = b2" "cache_ok k u1" "cache_ok k u2" by simp_all
    have e1: "furc_tries s max_tries k m tries d a st1 =
        (if n1 < m then Inr (n1, u1) else furc_tries s max_tries k m (tries + 1) d1 b1 u1)"
      using cond g1 None h1 by (subst furc_tries.simps) simp
    have e2: "furc_tries s max_tries k m tries d a st2 =
        (if n1 < m then Inr (n1, u2) else furc_tries s max_tries k m (tries + 1) d1 b1 u2)"
      using cond g2 None h2 ag bg by (subst furc_tries.simps) simp
    show ?thesis
    proof (cases "n1 < m")
      case True
      then show ?thesis using e1 e2 Suc.prems by simp
    next
      case False
      have ut: "unat (tries + 1) = unat tries + 1"
        using cond unat_lt_u32[of max_tries]
        by (intro unat_plus_one_u32) (simp add: word_less_nat_alt)
      have n: "n = unat max_tries - unat (tries + 1)" using Suc.hyps(2) ut by simp
      have r1: "furc_tries s max_tries k m (tries + 1) d1 b1 u1 = Inr (r1, s1)"
        using e1 False Suc.prems(3) by simp
      have r2: "furc_tries s max_tries k m (tries + 1) d1 b1 u2 = Inr (r2, s2)"
        using e2 False Suc.prems(4) by simp
      from Suc.hyps(1)[OF n bg(3,4) r1 r2] show ?thesis .
    qed
  qed
qed

lemma furc_hash_array_agree:
  assumes "furc_hash_array shift max_tries k m h1 = Inr (r1, s1)"
    and "furc_hash_array shift max_tries k m h2 = Inr (r2, s2)"
  shows "r1 = r2"
proof (cases "furc_maximum_pool_size shift < m \<or> m \<le> 1")
  case True
  then show ?thesis using assms by (auto simp add: furc_hash_array_def Let_def split: if_splits)
next
  case False
  let ?d = "furc_depth m 0"
  let ?t1 = "\<lparr>hash = h1, old_ord = - 1, reads = []\<rparr>"
  let ?t2 = "\<lparr>hash = h2, old_ord = - 1, reads = []\<rparr>"
  have e1: "furc_tries shift max_tries k m 0 ?d ?d ?t1 = Inr (r1, s1)"
    using assms(1) False by (simp add: furc_hash_array_def furc_get_bit_reset Let_def)
  have e2: "furc_tries shift max_tries k m 0 ?d ?d ?t2 = Inr (r2, s2)"
    using assms(2) False by (simp add: furc_hash_array_def furc_get_bit_reset Let_def)
  have "cache_ok k ?t1" "cache_ok k ?t2" by (simp_all add: cache_ok_def)
  from furc_tries_agree[OF this e1 e2] show ?thesis .
qed

lemma furc_hash_array_total:
  assumes fits: "furc_fits shift max_tries (length h)" and mp: "m \<le> furc_maximum_pool_size shift"
  shows "\<exists>r st'. furc_hash_array shift max_tries k m h = Inr (r, st') \<and> length (hash st') = length h"
proof (cases "1 < m")
  case True
  from furc_hash_array_ok[OF True mp fits, of k] show ?thesis by blast
next
  case False
  then have "m \<le> 1" by simp
  from furc_hash_array_trivial[OF this mp, of max_tries k h] show ?thesis by simp
qed

lemma furc_hash_array_indep:
  assumes f1: "furc_fits shift max_tries (length h1)" and f2: "furc_fits shift max_tries (length h2)"
  shows "map_sum id fst (furc_hash_array shift max_tries k m h1)
           = map_sum id fst (furc_hash_array shift max_tries k m h2)"
proof (cases "m \<le> furc_maximum_pool_size shift")
  case False
  then have "furc_maximum_pool_size shift < m" by simp
  then show ?thesis by (simp add: furc_hash_array_def Let_def)
next
  case True
  from furc_hash_array_total[OF f1 True, of k] obtain r1 s1 where
    a1: "furc_hash_array shift max_tries k m h1 = Inr (r1, s1)" by blast
  from furc_hash_array_total[OF f2 True, of k] obtain r2 s2 where
    a2: "furc_hash_array shift max_tries k m h2 = Inr (r2, s2)" by blast
  from furc_hash_array_agree[OF a1 a2] a1 a2 show ?thesis by simp
qed

lemma furc_descend_return:
  "furc_descend k d a st = Inr (Some v, d', a', st') \<Longrightarrow> v = 0 \<and> d' = 0"
proof (induction k d a st rule: furc_descend.induct)
  case (1 k d a st)
  from "1.prems" obtain b t where g: "furc_get_bit (Some k) a st = Inr (b, t)"
    by (subst (asm) furc_descend.simps) (auto split: sum.splits)
  have e: "furc_descend k d a st =
      (if b = 0 then (if d - 1 = 0 then Inr (Some 0, d - 1, a, t) else furc_descend k (d - 1) (d - 1) t)
       else Inr (None, d, a, t))" using g by (subst furc_descend.simps) simp
  show ?case
  proof (cases "b = 0 \<and> d - 1 \<noteq> 0")
    case False
    then show ?thesis using e "1.prems" by (auto split: if_splits)
  next
    case True
    then have "furc_descend k (d - 1) (d - 1) t = Inr (Some v, d', a', st')"
      using e "1.prems" by simp
    from "1.IH"[OF g refl _ _ this] True show ?thesis by simp
  qed
qed

section \<open>Attempts of the walk\<close>

lemma furc_tries_attempt:
  "tries < max_tries \<Longrightarrow>
   furc_tries shift max_tries k m tries d a st =
     (case furc_attempt shift k m d a st of
        Inl e \<Rightarrow> Inl e
      | Inr (Returned v st') \<Rightarrow> Inr (v, st')
      | Inr (Rejected d' a' st') \<Rightarrow> furc_tries shift max_tries k m (tries + 1) d' a' st')"
  by (subst furc_tries.simps)
     (simp add: furc_attempt_def split: sum.splits option.splits prod.splits)

lemma furc_tries_rejected:
  "furc_rejected shift k m n d a st = Some (d', a', st') \<Longrightarrow>
   unat tries + n \<le> unat max_tries \<Longrightarrow>
   furc_tries shift max_tries k m tries d a st
     = furc_tries shift max_tries k m (tries + of_nat n) d' a' st'"
proof (induction n arbitrary: tries d a st)
  case 0
  then show ?case by simp
next
  case (Suc n)
  from Suc.prems(1) obtain d1 a1 st1 where
    at: "furc_attempt shift k m d a st = Inr (Rejected d1 a1 st1)"
    and rest: "furc_rejected shift k m n d1 a1 st1 = Some (d', a', st')"
    by (auto split: sum.splits attempt.splits)
  have lt: "unat tries < unat max_tries" using Suc.prems(2) by simp
  then have cond: "tries < max_tries" by (simp add: word_less_nat_alt)
  have ut: "unat (tries + 1) = unat tries + 1"
    using lt unat_lt_u32[of max_tries] by (intro unat_plus_one_u32) simp
  have "furc_tries shift max_tries k m tries d a st
          = furc_tries shift max_tries k m (tries + 1) d1 a1 st1"
    using at by (simp add: furc_tries_attempt[OF cond])
  also have "\<dots> = furc_tries shift max_tries k m (tries + 1 + of_nat n) d' a' st'"
    using rest Suc.prems(2) ut by (intro Suc.IH) simp_all
  also have "tries + 1 + of_nat n = tries + of_nat (Suc n)" by simp
  finally show ?case .
qed

lemma furc_hash_array_tries:
  "1 < m \<Longrightarrow> m \<le> furc_maximum_pool_size shift \<Longrightarrow>
   furc_hash_array shift max_tries k m h
     = furc_tries shift max_tries k m 0 (furc_depth m 0) (furc_depth m 0)
         \<lparr>hash = h, old_ord = - 1, reads = []\<rparr>"
proof -
  assume a: "1 < m" "m \<le> furc_maximum_pool_size shift"
  have c1: "\<not> furc_maximum_pool_size shift < m" using a(2) by simp
  have c2: "\<not> m \<le> 1" using a(1) by simp
  show ?thesis by (simp add: furc_hash_array_def furc_get_bit_reset Let_def c1 c2)
qed

lemma furc_get_bit_reads:
  "furc_get_bit (Some k) idx st = Inr (b, st') \<Longrightarrow> reads st' = reads st @ [idx]"
  by (auto simp add: furc_get_bit_def Let_def split: sum.splits if_splits)

lemma furc_descend_bits:
  "cache_ok k st \<Longrightarrow> furc_descend k d a st = Inr (ret, d', a', st') \<Longrightarrow>
   \<exists>ps. reads st' = reads st @ ps \<and> ps \<noteq> [] \<and>
        (\<forall>p \<in> set (butlast ps). stream_bit k p = 0) \<and>
        stream_bit k (last ps) = (case ret of None \<Rightarrow> 1 | Some v \<Rightarrow> 0) \<and>
        (ret = None \<longrightarrow> a' = last ps)"
proof (induction k d a st rule: furc_descend.induct)
  case (1 k d a st)
  from "1.prems"(2) obtain b t where g: "furc_get_bit (Some k) a st = Inr (b, t)"
    by (subst (asm) furc_descend.simps) (auto split: sum.splits)
  from furc_get_bit_sound[OF "1.prems"(1) g] have b: "b = stream_bit k a" "cache_ok k t" by simp_all
  from furc_get_bit_reads[OF g] have rt: "reads t = reads st @ [a]" .
  have e: "furc_descend k d a st =
      (if b = 0 then (if d - 1 = 0 then Inr (Some 0, d - 1, a, t) else furc_descend k (d - 1) (d - 1) t)
       else Inr (None, d, a, t))" using g by (subst furc_descend.simps) simp
  show ?case
  proof (cases "b = 0")
    case False
    then have r: "ret = None" "a' = a" "st' = t" using e "1.prems"(2) by simp_all
    have "stream_bit k a = 1" using False b(1) stream_bit_cases[of k a] by simp
    then have "reads st' = reads st @ [a] \<and> [a] \<noteq> [] \<and>
        (\<forall>p \<in> set (butlast [a]). stream_bit k p = 0) \<and>
        stream_bit k (last [a]) = (case ret of None \<Rightarrow> 1 | Some v \<Rightarrow> 0) \<and>
        (ret = None \<longrightarrow> a' = last [a])" using r rt by simp
    then show ?thesis by blast
  next
    case True
    show ?thesis
    proof (cases "d - 1 = 0")
      case z: True
      then have r: "ret = Some 0" "st' = t" using e True "1.prems"(2) by simp_all
      have "reads st' = reads st @ [a] \<and> [a] \<noteq> [] \<and>
        (\<forall>p \<in> set (butlast [a]). stream_bit k p = 0) \<and>
        stream_bit k (last [a]) = (case ret of None \<Rightarrow> 1 | Some v \<Rightarrow> 0) \<and>
        (ret = None \<longrightarrow> a' = last [a])" using r rt True b(1) by simp
      then show ?thesis by blast
    next
      case nz: False
      have rr: "furc_descend k (d - 1) (d - 1) t = Inr (ret, d', a', st')"
        using e True nz "1.prems"(2) by simp
      from "1.IH"[OF g refl True nz b(2) rr] obtain ps where ps:
        "reads st' = reads t @ ps" "ps \<noteq> []" "\<forall>p \<in> set (butlast ps). stream_bit k p = 0"
        "stream_bit k (last ps) = (case ret of None \<Rightarrow> 1 | Some v \<Rightarrow> 0)"
        "ret = None \<longrightarrow> a' = last ps" by blast
      have "reads st' = reads st @ (a # ps) \<and> a # ps \<noteq> [] \<and>
        (\<forall>p \<in> set (butlast (a # ps)). stream_bit k p = 0) \<and>
        stream_bit k (last (a # ps)) = (case ret of None \<Rightarrow> 1 | Some v \<Rightarrow> 0) \<and>
        (ret = None \<longrightarrow> a' = last (a # ps))"
        using ps rt True b(1) by simp
      then show ?thesis by blast
    qed
  qed
qed

section \<open>Bucket range\<close>

text \<open>
  Claim C1. For every key and every pool size \<open>m\<close> with \<open>1 \<le> m \<le> maxPoolSize\<close>,
  \<open>furc_hash(key, len, m)\<close> returns a bucket index in \<open>[0, m)\<close>; for \<open>m \<le> 1\<close> it
  returns 0. The constants of the header are such that the array holds the walk
  (\<open>furc_fits\<close>).
\<close>

theorem furc_hash_in_range:
  assumes "m \<le> furc_maximum_pool_size shift" and "furc_fits shift max_tries csize"
  shows "\<exists>r. furc_hash shift max_tries csize junk k m = Inr r \<and>
             (1 \<le> m \<longrightarrow> r < m) \<and> (m \<le> 1 \<longrightarrow> r = 0)"
proof (cases "1 < m")
  case True
  have f: "furc_fits shift max_tries (length (map junk [0..<csize]))" using assms(2) by simp
  from furc_hash_array_ok[OF True assms(1) f, of k] obtain r st' where
    "furc_hash_array shift max_tries k m (map junk [0..<csize]) = Inr (r, st')" "r < m" by blast
  moreover have "\<not> m \<le> 1" using True by simp
  ultimately show ?thesis by (simp add: furc_hash_def)
next
  case False
  then have m1: "m \<le> 1" by simp
  have "furc_hash shift max_tries csize junk k m = Inr 0"
    using furc_hash_array_trivial[OF m1 assms(1)] by (simp add: furc_hash_def)
  moreover have "1 \<le> m \<longrightarrow> 0 < m" by (simp add: word_less_nat_alt word_le_nat_alt)
  ultimately show ?thesis by simp
qed

theorem furc_hash_in_range_witness:
  "(1000::u32) \<le> furc_maximum_pool_size 23 \<and> furc_fits 23 32 1024 \<and>
   (\<exists>r. furc_hash 23 32 1024 (\<lambda>n. 0) [0x66, 0x6f, 0x6f] 1000 = Inr r \<and>
        ((1::u32) \<le> 1000 \<longrightarrow> r < 1000) \<and> ((1000::u32) \<le> 1 \<longrightarrow> r = 0)) \<and>
   (1::u32) \<le> furc_maximum_pool_size 23 \<and>
   (\<exists>r. furc_hash 23 32 1024 (\<lambda>n. 0) [0x66, 0x6f, 0x6f] 1 = Inr r \<and>
        ((1::u32) \<le> 1 \<longrightarrow> r < 1) \<and> ((1::u32) \<le> 1 \<longrightarrow> r = 0))"
proof -
  have h1: "(1000::u32) \<le> furc_maximum_pool_size 23" by (simp add: furc_maximum_pool_size_def)
  have h2: "furc_fits 23 32 1024" by (simp add: furc_fits_def)
  have h3: "(1::u32) \<le> furc_maximum_pool_size 23" by (simp add: furc_maximum_pool_size_def)
  show ?thesis
    using h1 h2 h3 furc_hash_in_range[OF h1 h2, of "\<lambda>n. 0" "[0x66, 0x6f, 0x6f]"]
      furc_hash_in_range[OF h3 h2, of "\<lambda>n. 0" "[0x66, 0x6f, 0x6f]"]
    by blast
qed

section \<open>The bit-stream generator\<close>

text \<open>
  Claim C2. After a reset, for every key and every sequence of bit-index requests that
  is non-decreasing (and stays inside the array), \<open>furc_get_bit\<close> answers each request
  \<open>idx\<close> with bit \<open>idx mod 64\<close> of block \<open>idx div 64\<close> of the key's stream, where block 0
  is \<open>murmur_hash_64A(key, len, SEED)\<close> and block \<open>n > 0\<close> is \<open>murmur_rehash_64A\<close> of
  block \<open>n - 1\<close>.
\<close>

theorem furc_get_bit_nondecreasing:
  assumes "furc_get_bit None i st = Inr (b0, st0)"
    and "sorted (map unat idxs)"
    and "\<forall>idx \<in> set idxs. unat idx div 64 < length (hash st)"
  shows "\<exists>st'. furc_get_bits k idxs st0 = Inr (map (stream_bit k) idxs, st')"
proof -
  from assms(1) have st0: "st0 = st\<lparr>old_ord := - 1\<rparr>" by (simp add: furc_get_bit_reset)
  have "cache_ok k st0" unfolding st0 by (rule cache_ok_reset)
  moreover have "\<forall>idx \<in> set idxs. unat idx div 64 < length (hash st0)" using assms(3) st0 by simp
  ultimately show ?thesis using furc_get_bits_ok by blast
qed

theorem furc_get_bit_nondecreasing_witness:
  "furc_get_bit None 0 \<lparr>hash = replicate 4 7, old_ord = 3, reads = []\<rparr>
     = Inr (0, \<lparr>hash = replicate 4 7, old_ord = - 1, reads = []\<rparr>) \<and>
   sorted (map unat [3, 26, 49, 72, 200 :: u32]) \<and>
   (\<exists>st'. furc_get_bits [0x66] [3, 26, 49, 72, 200]
             \<lparr>hash = replicate 4 7, old_ord = - 1, reads = []\<rparr>
           = Inr (map (stream_bit [0x66]) [3, 26, 49, 72, 200], st'))"
proof -
  let ?ini = "\<lparr>hash = replicate 4 (7::u64), old_ord = 3, reads = []\<rparr>"
  let ?rst = "\<lparr>hash = replicate 4 (7::u64), old_ord = - 1, reads = []\<rparr>"
  have h1: "furc_get_bit None 0 ?ini = Inr (0, ?rst)" by (simp add: furc_get_bit_def)
  have h2: "sorted (map unat [3, 26, 49, 72, 200 :: u32])" by simp
  have h3: "\<forall>idx \<in> set [3, 26, 49, 72, 200 :: u32]. unat idx div 64 < length (hash ?ini)" by simp
  show ?thesis
    using h1 h2 furc_get_bit_nondecreasing[OF h1 h2 h3, of "[0x66]"] by blast
qed

text \<open>
  Claim C10. After a reset, \<open>furc_get_bit\<close> returns the bit of the key's stream for any
  sequence of bit-index requests inside the array, decreasing ones included: what the
  memory holds up to the marker is never overwritten, so the order of the requests does
  not matter.
\<close>

theorem furc_get_bit_any_order:
  assumes "furc_get_bit None i st = Inr (b0, st0)"
    and "\<forall>idx \<in> set idxs. unat idx div 64 < length (hash st)"
  shows "\<exists>st'. furc_get_bits k idxs st0 = Inr (map (stream_bit k) idxs, st')"
proof -
  from assms(1) have st0: "st0 = st\<lparr>old_ord := - 1\<rparr>" by (simp add: furc_get_bit_reset)
  have "cache_ok k st0" unfolding st0 by (rule cache_ok_reset)
  moreover have "\<forall>idx \<in> set idxs. unat idx div 64 < length (hash st0)" using assms(2) st0 by simp
  ultimately show ?thesis using furc_get_bits_ok by blast
qed

text \<open>
  The walk itself asks for a lower position after a higher one. For the one-byte key
  \<open>0x66\<close> and \<open>m = 5\<close> two candidates are rejected, then the bit at position 141 is 0 and
  the walk goes back to position 2. These requests are those of the example below.
\<close>

lemma furc_walk_requests_example:
  "map_sum id (\<lambda>(r, st). (r, reads st)) (furc_hash_array 23 32 [0x66] 5 (replicate 1024 0))
     = Inr (2, [3, 26, 49, 72, 95, 118, 141, 2, 25])"
  by code_simp

theorem furc_get_bit_any_order_witness:
  "furc_get_bit None 0 \<lparr>hash = replicate 4 7, old_ord = 3, reads = []\<rparr>
     = Inr (0, \<lparr>hash = replicate 4 7, old_ord = - 1, reads = []\<rparr>) \<and>
   (\<exists>st'. furc_get_bits [0x66] [3, 26, 49, 72, 95, 118, 141, 2, 25]
             \<lparr>hash = replicate 4 7, old_ord = - 1, reads = []\<rparr>
           = Inr (map (stream_bit [0x66]) [3, 26, 49, 72, 95, 118, 141, 2, 25], st'))"
proof -
  let ?ini = "\<lparr>hash = replicate 4 (7::u64), old_ord = 3, reads = []\<rparr>"
  let ?rst = "\<lparr>hash = replicate 4 (7::u64), old_ord = - 1, reads = []\<rparr>"
  have h1: "furc_get_bit None 0 ?ini = Inr (0, ?rst)" by (simp add: furc_get_bit_def)
  have h2: "\<forall>idx \<in> set [3, 26, 49, 72, 95, 118, 141, 2, 25 :: u32].
      unat idx div 64 < length (hash ?ini)" by simp
  show ?thesis
    using h1 furc_get_bit_any_order[OF h1 h2, of "[0x66]"] by blast
qed


section \<open>The decision-tree walk\<close>

text \<open>
  Claim C3, as stated: in the descend-while-zero step the bit position read advances by
  the fixed stride \<open>SHIFT\<close> per tree level, not by 1. It fails: for the one-byte key
  \<open>0x61\<close> and \<open>m = 4\<close> (depth 2) the descend step reads position 2, finds a 0 and reads
  position 1 next. The stride is 1, whatever \<open>SHIFT\<close> is (23 by the comment of the source).
\<close>

theorem furc_descend_stride_counterexample:
  "map_sum id (\<lambda>(ret, d', a', st'). reads st')
     (furc_descend [0x61] 2 2 \<lparr>hash = replicate 1024 0, old_ord = - 1, reads = []\<rparr>)
     = Inr [2, 1] \<and> (2::u32) - 1 \<noteq> 23"
  by code_simp

text \<open>
  Claim C3, amended. The descend-while-zero step reads its first bit at the current
  position \<open>a\<close> (the depth \<open>d\<close> on the first attempt, the position the previous attempt
  left on a retry). Each time the bit read is 0 it decrements \<open>d\<close> and reads next at the
  position equal to the new depth: the positions read are \<open>a\<close>, \<open>d - 1\<close>, \<open>d - 2\<close>, ...,
  each of the latter 1 below the one before and none of them \<open>SHIFT\<close> away. It ends
  on the first 1 bit, or returns when \<open>d\<close> reaches 0. The stride \<open>SHIFT\<close> belongs to
  the build-candidate step: after a 1 bit read at position \<open>a'\<close> with depth \<open>d'\<close>, it
  reads the \<open>d' - 1\<close> positions \<open>a' + SHIFT\<close>, \<open>a' + 2 * SHIFT\<close>, ...,
  \<open>a' + (d' - 1) * SHIFT\<close>.
\<close>

theorem furc_walk_strides:
  assumes "cache_ok k st" and "0 < shift" and "1 \<le> unat d" and "unat d \<le> 32"
    and "unat d \<le> unat a"
    and "unat a + unat d * shift \<le> 64 * length (hash st)"
    and "unat a + unat d * shift < 4294967296"
  shows "\<exists>ret d' a' st1 ps.
           furc_descend k d a st = Inr (ret, d', a', st1) \<and>
           reads st1 = reads st @ ps \<and>
           map unat ps = unat a # rev [max 1 (unat d')..<unat d] \<and>
           (\<forall>p \<in> set (butlast ps). stream_bit k p = 0) \<and>
           stream_bit k (last ps) = (case ret of None \<Rightarrow> 1 | Some v \<Rightarrow> 0) \<and>
           (ret = None \<longrightarrow>
              a' = last ps \<and>
              (\<exists>num a'' st2.
                 furc_build shift k d' 0 1 (a' + of_nat shift) st1 = Inr (num, a'', st2) \<and>
                 map unat (reads st2)
                   = map unat (reads st1)
                       @ map (\<lambda>j. unat a' + shift + j * shift) [0..<unat d' - 1]))"
proof -
  let ?L = "length (hash st)"
  have ds: "unat d * shift = shift + (unat d - 1) * shift"
    using assms(3) by (metis Suc_pred' mult_Suc One_nat_def Suc_le_eq)
  have aL: "unat a < 64 * ?L" using assms(2,6) ds by linarith
  have dL: "unat d \<le> 64 * ?L" using assms(5) aL by linarith
  from furc_descend_ok[OF assms(1) refl assms(3) aL dL] obtain ret d' a' st1 where dr:
    "furc_descend k d a st = Inr (ret, d', a', st1)" "cache_ok k st1" "length (hash st1) = ?L"
    "unat d' \<le> unat d"
    "map unat (reads st1) = map unat (reads st) @ unat a # rev [max 1 (unat d')..<unat d]"
    "case ret of Some v \<Rightarrow> v = 0 \<and> d' = 0
       | None \<Rightarrow> 1 \<le> unat d' \<and> (if d' = d then a' = a else a' = d')" by blast
  from furc_descend_bits[OF assms(1) dr(1)] obtain ps where ps:
    "reads st1 = reads st @ ps" "ps \<noteq> []" "\<forall>p \<in> set (butlast ps). stream_bit k p = 0"
    "stream_bit k (last ps) = (case ret of None \<Rightarrow> 1 | Some v \<Rightarrow> 0)"
    "ret = None \<longrightarrow> a' = last ps" by blast
  have mp: "map unat ps = unat a # rev [max 1 (unat d')..<unat d]"
    using dr(5) ps(1) by simp
  have bld: "a' = last ps \<and>
       (\<exists>num a'' st2.
          furc_build shift k d' 0 1 (a' + of_nat shift) st1 = Inr (num, a'', st2) \<and>
          map unat (reads st2)
            = map unat (reads st1) @ map (\<lambda>j. unat a' + shift + j * shift) [0..<unat d' - 1])"
    if none: "ret = None"
  proof -
    from dr(6) none have d'1: "1 \<le> unat d'" and a'eq: "if d' = d then a' = a else a' = d'"
      by simp_all
    have a'le: "unat a' \<le> unat a"
    proof (cases "d' = d")
      case True then show ?thesis using a'eq by simp
    next
      case False
      then have "unat a' = unat d'" using a'eq by simp
      then show ?thesis using dr(4) assms(5) by linarith
    qed
    have "unat d' * shift \<le> unat d * shift" using dr(4) by (intro mult_le_mono1)
    then have ub: "unat a' + unat d' * shift \<le> unat a + unat d * shift" using a'le by linarith
    have d's: "unat d' * shift = shift + (unat d' - 1) * shift"
      using d'1 by (metis Suc_pred' mult_Suc One_nat_def Suc_le_eq)
    have uas: "unat (a' + of_nat shift) = unat a' + shift"
      using ub d's assms(7) by (intro unat_add_nat_u32) linarith
    have "\<exists>num' a'' st'. furc_build shift k d' 0 1 (a' + of_nat shift) st1 = Inr (num', a'', st') \<and>
      cache_ok k st' \<and> length (hash st') = ?L \<and>
      unat a'' = unat (a' + of_nat shift) + (unat d' - 1 - unat (0::u32)) * shift \<and>
      map unat (reads st') =
        map unat (reads st1)
          @ map (\<lambda>j. unat (a' + of_nat shift) + j * shift) [0..<unat d' - 1 - unat (0::u32)] \<and>
      2 ^ (0 + (unat d' - 1 - unat (0::u32))) \<le> unat num' \<and>
      unat num' < 2 ^ (0 + (unat d' - 1 - unat (0::u32)) + 1)"
    proof (rule furc_build_ok[OF dr(2,3) assms(2) d'1])
      show "unat (0::u32) \<le> unat d' - 1" by simp
      show "unat (a' + of_nat shift) + (unat d' - 1 - unat (0::u32)) * shift \<le> 64 * ?L"
        using uas ub d's assms(6) by simp
      show "unat (a' + of_nat shift) + (unat d' - 1 - unat (0::u32)) * shift < 4294967296"
        using uas ub d's assms(7) by simp
      show "2 ^ 0 \<le> unat (1::u32)" by simp
      show "unat (1::u32) < 2 ^ (0 + 1)" by simp
      show "0 + (unat d' - 1 - unat (0::u32)) < 32" using dr(4) assms(4) d'1 by simp
    qed
    then have "\<exists>num a'' st2.
          furc_build shift k d' 0 1 (a' + of_nat shift) st1 = Inr (num, a'', st2) \<and>
          map unat (reads st2)
            = map unat (reads st1) @ map (\<lambda>j. unat a' + shift + j * shift) [0..<unat d' - 1]"
      using uas by auto
    with ps(5) none show ?thesis by simp
  qed
  have c6: "ret = None \<longrightarrow>
       a' = last ps \<and>
       (\<exists>num a'' st2.
          furc_build shift k d' 0 1 (a' + of_nat shift) st1 = Inr (num, a'', st2) \<and>
          map unat (reads st2)
            = map unat (reads st1) @ map (\<lambda>j. unat a' + shift + j * shift) [0..<unat d' - 1])"
    by (rule impI) (rule bld)
  show ?thesis
    by (rule exI[where x = ret], rule exI[where x = d'], rule exI[where x = a'],
        rule exI[where x = st1], rule exI[where x = ps])
       (intro conjI dr(1) ps(1) mp ps(3) ps(4) c6)
qed

text \<open>
  The witness is the first attempt of the walk for the one-byte key \<open>0x66\<close> and
  \<open>m = 16\<close> (depth 4): the descend reads position 4 (a 0) and position 3 (a 1), the
  build step then reads 26 and 49. A descend that starts from an advanced position is in
  \<open>furc_walk_requests_example\<close>: there position 141 holds a 0 and position 2 is read next.
\<close>

theorem furc_walk_strides_witness:
  "cache_ok [0x66] \<lparr>hash = replicate 1024 0, old_ord = - 1, reads = []\<rparr> \<and>
   (\<exists>ret d' a' st1 ps.
      furc_descend [0x66] 4 4 \<lparr>hash = replicate 1024 0, old_ord = - 1, reads = []\<rparr>
        = Inr (ret, d', a', st1) \<and>
      reads st1 = [] @ ps \<and>
      map unat ps = unat (4::u32) # rev [max 1 (unat d')..<unat (4::u32)] \<and>
      (\<forall>p \<in> set (butlast ps). stream_bit [0x66] p = 0) \<and>
      stream_bit [0x66] (last ps) = (case ret of None \<Rightarrow> 1 | Some v \<Rightarrow> 0) \<and>
      (ret = None \<longrightarrow>
         a' = last ps \<and>
         (\<exists>num a'' st2.
            furc_build 23 [0x66] d' 0 1 (a' + of_nat 23) st1 = Inr (num, a'', st2) \<and>
            map unat (reads st2)
              = map unat (reads st1) @ map (\<lambda>j. unat a' + 23 + j * 23) [0..<unat d' - 1]))) \<and>
   map_sum id (\<lambda>(ret, d', a', st1). (ret, d', a', reads st1))
     (furc_descend [0x66] 4 4 \<lparr>hash = replicate 1024 0, old_ord = - 1, reads = []\<rparr>)
     = Inr (None, 3, 3, [4, 3]) \<and>
   map_sum id (\<lambda>(r, st). (r, reads st)) (furc_hash_array 23 32 [0x66] 16 (replicate 1024 0))
     = Inr (7, [4, 3, 26, 49])"
proof -
  let ?ini = "\<lparr>hash = replicate 1024 (0::u64), old_ord = - 1, reads = []\<rparr>"
  have h1: "cache_ok [0x66] ?ini" by (simp add: cache_ok_def)
  have h2: "0 < (23::nat)" by simp
  have h3: "1 \<le> unat (4::u32)" by simp
  have h4: "unat (4::u32) \<le> 32" by simp
  have h5: "unat (4::u32) \<le> unat (4::u32)" by simp
  have h6: "unat (4::u32) + unat (4::u32) * 23 \<le> 64 * length (hash ?ini)" by simp
  have h7: "unat (4::u32) + unat (4::u32) * 23 < 4294967296" by simp
  have e1: "map_sum id (\<lambda>(ret, d', a', st1). (ret, d', a', reads st1)) (furc_descend [0x66] 4 4 ?ini)
     = Inr (None, 3, 3, [4, 3])" by code_simp
  have e2: "map_sum id (\<lambda>(r, st). (r, reads st)) (furc_hash_array 23 32 [0x66] 16 (replicate 1024 0))
     = Inr (7, [4, 3, 26, 49])" by code_simp
  from furc_walk_strides[OF h1 h2 h3 h4 h5 h6 h7]
  have w: "\<exists>ret d' a' st1 ps.
      furc_descend [0x66] 4 4 ?ini = Inr (ret, d', a', st1) \<and>
      reads st1 = [] @ ps \<and>
      map unat ps = unat (4::u32) # rev [max 1 (unat d')..<unat (4::u32)] \<and>
      (\<forall>p \<in> set (butlast ps). stream_bit [0x66] p = 0) \<and>
      stream_bit [0x66] (last ps) = (case ret of None \<Rightarrow> 1 | Some v \<Rightarrow> 0) \<and>
      (ret = None \<longrightarrow>
         a' = last ps \<and>
         (\<exists>num a'' st2.
            furc_build 23 [0x66] d' 0 1 (a' + of_nat 23) st1 = Inr (num, a'', st2) \<and>
            map unat (reads st2)
              = map unat (reads st1) @ map (\<lambda>j. unat a' + 23 + j * 23) [0..<unat d' - 1]))"
    by simp
  from h1 w e1 e2 show ?thesis by (intro conjI)
qed

text \<open>
  Claim C5. In every execution of the walk, no bit position is read twice: when a
  candidate is rejected, the next retry reads only positions that no earlier step of the
  same walk has read.
\<close>

theorem furc_walk_reads_fresh:
  assumes "m \<le> furc_maximum_pool_size shift" and "furc_fits shift max_tries (length h)"
  shows "\<exists>r st'. furc_hash_array shift max_tries k m h = Inr (r, st') \<and> distinct (reads st')"
proof (cases "1 < m")
  case True
  from furc_hash_array_ok[OF True assms, of k] show ?thesis by blast
next
  case False
  then have "m \<le> 1" by simp
  from furc_hash_array_trivial[OF this assms(1), of max_tries k h] show ?thesis by simp
qed

text \<open>
  The witness is a walk with two rejected candidates (key \<open>0x66\<close>, \<open>m = 5\<close>); it reads
  the positions 3, 26, 49, 72, 95, 118, 141, 2, 25.
\<close>

theorem furc_walk_reads_fresh_witness:
  "(5::u32) \<le> furc_maximum_pool_size 23 \<and> furc_fits 23 32 (length (replicate 1024 (0::u64))) \<and>
   (\<exists>r st'. furc_hash_array 23 32 [0x66] 5 (replicate 1024 0) = Inr (r, st') \<and>
        distinct (reads st'))"
proof -
  have h1: "(5::u32) \<le> furc_maximum_pool_size 23" by (simp add: furc_maximum_pool_size_def)
  have h2: "furc_fits 23 32 (length (replicate 1024 (0::u64)))" by (simp add: furc_fits_def)
  from furc_walk_reads_fresh[OF h1 h2, of "[0x66]"] h1 h2 show ?thesis by blast
qed

text \<open>
  Claim C6. For every key and pool size, \<open>furc_hash_array\<close> returns the same result for
  any two initial contents of the scratch array; \<open>furc_hash\<close>, whose array is not
  initialised, returns that result too; and so does a call on the array as an earlier
  call, for any other key and pool size, has left it.
\<close>

theorem furc_hash_array_cache_independent:
  assumes "furc_fits shift max_tries (length c1)" and "furc_fits shift max_tries (length c2)"
    and "furc_fits shift max_tries csize"
  shows "map_sum id fst (furc_hash_array shift max_tries k m c1)
           = map_sum id fst (furc_hash_array shift max_tries k m c2) \<and>
         furc_hash shift max_tries csize junk k m
           = map_sum id fst (furc_hash_array shift max_tries k m c1) \<and>
         (\<forall>k' m' r' st'. furc_hash_array shift max_tries k' m' c1 = Inr (r', st') \<longrightarrow>
            map_sum id fst (furc_hash_array shift max_tries k m (hash st'))
              = furc_hash shift max_tries csize junk k m)"
proof -
  have fj: "furc_fits shift max_tries (length (map junk [0..<csize]))" using assms(3) by simp
  have p1: "map_sum id fst (furc_hash_array shift max_tries k m c1)
           = map_sum id fst (furc_hash_array shift max_tries k m c2)"
    using assms(1,2) by (rule furc_hash_array_indep)
  have p2: "furc_hash shift max_tries csize junk k m
           = map_sum id fst (furc_hash_array shift max_tries k m c1)"
    unfolding furc_hash_def using fj assms(1) by (rule furc_hash_array_indep)
  have p3: "map_sum id fst (furc_hash_array shift max_tries k m (hash st'))
              = furc_hash shift max_tries csize junk k m"
    if a: "furc_hash_array shift max_tries k' m' c1 = Inr (r', st')" for k' m' r' st'
  proof -
    have mp: "m' \<le> furc_maximum_pool_size shift"
    proof (rule ccontr)
      assume "\<not> m' \<le> furc_maximum_pool_size shift"
      then have "furc_maximum_pool_size shift < m'" by simp
      then show False using a by (simp add: furc_hash_array_def Let_def)
    qed
    from furc_hash_array_total[OF assms(1) mp, of k'] a have "length (hash st') = length c1"
      by auto
    then have "furc_fits shift max_tries (length (hash st'))" using assms(1) by simp
    from furc_hash_array_indep[OF this assms(1)] p2 show ?thesis by simp
  qed
  from p1 p2 p3 show ?thesis by blast
qed

theorem furc_hash_array_cache_independent_witness:
  "furc_fits 23 32 (length (replicate 1024 (0::u64))) \<and>
   furc_fits 23 32 (length (replicate 300 (- 1 ::u64))) \<and> furc_fits 23 32 1024 \<and>
   map_sum id fst (furc_hash_array 23 32 [0x66] 5 (replicate 1024 0))
     = map_sum id fst (furc_hash_array 23 32 [0x66] 5 (replicate 300 (- 1))) \<and>
   furc_hash 23 32 1024 (\<lambda>n. of_nat n) [0x66] 5
     = map_sum id fst (furc_hash_array 23 32 [0x66] 5 (replicate 1024 0)) \<and>
   (\<exists>r' st'. furc_hash_array 23 32 [0x61] 4 (replicate 1024 0) = Inr (r', st') \<and>
      map_sum id fst (furc_hash_array 23 32 [0x66] 5 (hash st'))
        = furc_hash 23 32 1024 (\<lambda>n. of_nat n) [0x66] 5)"
proof -
  have mp: "(4::u32) \<le> furc_maximum_pool_size 23" by (simp add: furc_maximum_pool_size_def)
  have h1: "furc_fits 23 32 (length (replicate 1024 (0::u64)))" by (simp add: furc_fits_def)
  have h2: "furc_fits 23 32 (length (replicate 300 (- 1 ::u64)))" by (simp add: furc_fits_def)
  have h3: "furc_fits 23 32 1024" by (simp add: furc_fits_def)
  from furc_hash_array_total[OF h1 mp, of "[0x61]"] obtain r' st' where
    prev: "furc_hash_array 23 32 [0x61] 4 (replicate 1024 0) = Inr (r', st')" by blast
  from furc_hash_array_cache_independent[OF h1 h2 h3, of "[0x66]" 5 "\<lambda>n. of_nat n"] h1 h2 h3 prev
  show ?thesis by blast
qed

text \<open>
  Claim C7. For every key and valid pool size \<open>m > 1\<close>: if the walk uses up its
  \<open>MAX_TRIES\<close> attempts, each of them rejecting its candidate, the call returns 0; if
  after \<open>n < MAX_TRIES\<close> rejected attempts the descend brings the depth counter to 0,
  the call returns 0; 0 is a legal bucket (\<open>0 < m\<close>); and the call returns a value,
  there is no error branch. \<open>furc_hash\<close> is the call on its own array.
\<close>

theorem furc_walk_fallback_zero:
  assumes "1 < m" and "m \<le> furc_maximum_pool_size shift"
    and "furc_fits shift max_tries (length h)"
  shows "0 < m \<and>
         (\<exists>r st'. furc_hash_array shift max_tries k m h = Inr (r, st')) \<and>
         (furc_rejected shift k m (unat max_tries) (furc_depth m 0) (furc_depth m 0)
              \<lparr>hash = h, old_ord = - 1, reads = []\<rparr> = Some (d, a, st) \<longrightarrow>
            furc_hash_array shift max_tries k m h = Inr (0, st) \<and>
            (h = map junk [0..<csize] \<longrightarrow> furc_hash shift max_tries csize junk k m = Inr 0)) \<and>
         (n < unat max_tries \<longrightarrow>
          furc_rejected shift k m n (furc_depth m 0) (furc_depth m 0)
              \<lparr>hash = h, old_ord = - 1, reads = []\<rparr> = Some (d, a, st) \<longrightarrow>
          furc_descend k d a st = Inr (Some v, d', a', st1) \<longrightarrow>
            d' = 0 \<and> furc_hash_array shift max_tries k m h = Inr (0, st1) \<and>
            (h = map junk [0..<csize] \<longrightarrow> furc_hash shift max_tries csize junk k m = Inr 0))"
proof -
  let ?d = "furc_depth m 0"
  let ?ini = "\<lparr>hash = h, old_ord = - 1, reads = []\<rparr>"
  have p1: "0 < m" using assms(1) by (simp add: word_less_nat_alt)
  from furc_hash_array_ok[OF assms, of k]
  have p2: "\<exists>r st'. furc_hash_array shift max_tries k m h = Inr (r, st')" by blast
  note start = furc_hash_array_tries[OF assms(1,2), of max_tries k h]
  have fh: "furc_hash shift max_tries csize junk k m = Inr 0"
    if "furc_hash_array shift max_tries k m h = Inr (0, s)" "h = map junk [0..<csize]" for s
    using that by (simp add: furc_hash_def)
  have p3: "furc_hash_array shift max_tries k m h = Inr (0, st) \<and>
            (h = map junk [0..<csize] \<longrightarrow> furc_hash shift max_tries csize junk k m = Inr 0)"
    if r: "furc_rejected shift k m (unat max_tries) ?d ?d ?ini = Some (d, a, st)"
  proof -
    have "furc_tries shift max_tries k m 0 ?d ?d ?ini
            = furc_tries shift max_tries k m (0 + of_nat (unat max_tries)) d a st"
      using r by (rule furc_tries_rejected) simp
    also have "\<dots> = furc_tries shift max_tries k m max_tries d a st" by simp
    also have "\<dots> = Inr (0, st)" by (subst furc_tries.simps) simp
    finally have "furc_hash_array shift max_tries k m h = Inr (0, st)" using start by simp
    then show ?thesis using fh by blast
  qed
  have p4: "d' = 0 \<and> furc_hash_array shift max_tries k m h = Inr (0, st1) \<and>
            (h = map junk [0..<csize] \<longrightarrow> furc_hash shift max_tries csize junk k m = Inr 0)"
    if n: "n < unat max_tries"
      and r: "furc_rejected shift k m n ?d ?d ?ini = Some (d, a, st)"
      and u: "furc_descend k d a st = Inr (Some v, d', a', st1)"
  proof -
    from furc_descend_return[OF u] have v: "v = 0" "d' = 0" by simp_all
    have un: "unat (of_nat n :: u32) = n"
      using n unat_lt_u32[of max_tries] by (simp add: unat_of_nat)
    then have c: "(of_nat n :: u32) < max_tries" using n by (simp add: word_less_nat_alt)
    have "furc_tries shift max_tries k m 0 ?d ?d ?ini
            = furc_tries shift max_tries k m (0 + of_nat n) d a st"
      using r by (rule furc_tries_rejected) (use n in simp)
    also have "\<dots> = furc_tries shift max_tries k m (of_nat n) d a st" by simp
    also have "\<dots> = Inr (v, st1)" using c u by (subst furc_tries.simps) simp
    finally have "furc_hash_array shift max_tries k m h = Inr (0, st1)" using start v by simp
    then show ?thesis using fh v by blast
  qed
  from p1 p2 p3 p4 show ?thesis by blast
qed

text \<open>
  The witness has a walk of each kind. With a retry bound of 2, the key \<open>0x66\<close> and
  \<open>m = 5\<close> have both candidates rejected, and the call returns 0. With the retry bound
  32, the key \<open>0x69\<close> and \<open>m = 16\<close> read a 0 at the positions 4, 3, 2 and 1, the depth
  reaches 0, and the call returns 0.
\<close>

theorem furc_walk_fallback_zero_witness:
  "(1::u32) < 5 \<and> (5::u32) \<le> furc_maximum_pool_size 23 \<and>
   furc_fits 23 2 (length (map (\<lambda>n. 0::u64) [0..<1024])) \<and>
   (\<exists>d a st.
      furc_rejected 23 [0x66] 5 (unat (2::u32)) (furc_depth 5 0) (furc_depth 5 0)
          \<lparr>hash = map (\<lambda>n. 0) [0..<1024], old_ord = - 1, reads = []\<rparr> = Some (d, a, st) \<and>
      furc_hash_array 23 2 [0x66] 5 (map (\<lambda>n. 0) [0..<1024]) = Inr (0, st)) \<and>
   furc_hash 23 2 1024 (\<lambda>n. 0) [0x66] 5 = Inr 0 \<and>
   (1::u32) < 16 \<and> (16::u32) \<le> furc_maximum_pool_size 23 \<and>
   furc_fits 23 32 (length (map (\<lambda>n. 0::u64) [0..<1024])) \<and>
   (\<exists>v d' a' st1.
      furc_descend [0x69] (furc_depth 16 0) (furc_depth 16 0)
          \<lparr>hash = map (\<lambda>n. 0) [0..<1024], old_ord = - 1, reads = []\<rparr>
        = Inr (Some v, d', a', st1) \<and>
      furc_hash_array 23 32 [0x69] 16 (map (\<lambda>n. 0) [0..<1024]) = Inr (0, st1)) \<and>
   furc_hash 23 32 1024 (\<lambda>n. 0) [0x69] 16 = Inr 0"
proof -
  let ?h = "map (\<lambda>n. 0::u64) [0..<1024]"
  let ?ini = "\<lparr>hash = ?h, old_ord = - 1, reads = []\<rparr>"
  have a1: "(1::u32) < 5" by simp
  have a2: "(5::u32) \<le> furc_maximum_pool_size 23" by (simp add: furc_maximum_pool_size_def)
  have a3: "furc_fits 23 2 (length ?h)" by (simp add: furc_fits_def)
  have b1: "(1::u32) < 16" by simp
  have b2: "(16::u32) \<le> furc_maximum_pool_size 23" by (simp add: furc_maximum_pool_size_def)
  have b3: "furc_fits 23 32 (length ?h)" by (simp add: furc_fits_def)
  have e1: "map_option (\<lambda>(d, a, st). (d, a, reads st))
        (furc_rejected 23 [0x66] 5 (unat (2::u32)) (furc_depth 5 0) (furc_depth 5 0) ?ini)
      = Some (3, 141, [3, 26, 49, 72, 95, 118])" by code_simp
  then obtain d a st where
    r: "furc_rejected 23 [0x66] 5 (unat (2::u32)) (furc_depth 5 0) (furc_depth 5 0) ?ini
          = Some (d, a, st)"
    by (cases "furc_rejected 23 [0x66] 5 (unat (2::u32)) (furc_depth 5 0) (furc_depth 5 0) ?ini")
       auto
  from furc_walk_fallback_zero[OF a1 a2 a3, where k = "[0x66]" and d = d and a = a and st = st
      and junk = "\<lambda>n. 0" and csize = 1024] r
  have w1: "furc_hash_array 23 2 [0x66] 5 ?h = Inr (0, st)"
    and w2: "furc_hash 23 2 1024 (\<lambda>n. 0) [0x66] 5 = Inr 0" by blast+
  have e2: "map_sum id (\<lambda>(ret, d', a', st1). (ret, d', a', reads st1))
        (furc_descend [0x69] (furc_depth 16 0) (furc_depth 16 0) ?ini)
      = Inr (Some 0, 0, 1, [4, 3, 2, 1])" by code_simp
  then obtain st1 where
    u: "furc_descend [0x69] (furc_depth 16 0) (furc_depth 16 0) ?ini = Inr (Some 0, 0, 1, st1)"
    by (cases "furc_descend [0x69] (furc_depth 16 0) (furc_depth 16 0) ?ini") auto
  have z: "(0::nat) < unat (32::u32)" by simp
  have r0: "furc_rejected 23 [0x69] 16 0 (furc_depth 16 0) (furc_depth 16 0) ?ini
          = Some (furc_depth 16 0, furc_depth 16 0, ?ini)" by simp
  from furc_walk_fallback_zero[OF b1 b2 b3, where k = "[0x69]" and n = 0
      and d = "furc_depth 16 0" and a = "furc_depth 16 0" and st = ?ini and v = 0 and d' = 0
      and a' = 1 and ?st1.0 = st1 and junk = "\<lambda>n. 0" and csize = 1024] z r0 u
  have w3: "furc_hash_array 23 32 [0x69] 16 ?h = Inr (0, st1)"
    and w4: "furc_hash 23 32 1024 (\<lambda>n. 0) [0x69] 16 = Inr 0" by blast+
  from r w1 have x1: "\<exists>d a st.
      furc_rejected 23 [0x66] 5 (unat (2::u32)) (furc_depth 5 0) (furc_depth 5 0) ?ini
        = Some (d, a, st) \<and>
      furc_hash_array 23 2 [0x66] 5 ?h = Inr (0, st)" by blast
  from u w3 have x2: "\<exists>v d' a' st1.
      furc_descend [0x69] (furc_depth 16 0) (furc_depth 16 0) ?ini = Inr (Some v, d', a', st1) \<and>
      furc_hash_array 23 32 [0x69] 16 ?h = Inr (0, st1)" by blast
  from a1 a2 a3 x1 w2 b1 b2 b3 x2 w4 show ?thesis by (intro conjI)
qed

text \<open>
  Claim C8. For every key and valid pool size, the walk terminates: the functions of
  the model are total (each loop has its measure: the retry counter rises to
  \<open>MAX_TRIES\<close>, the descend loop lowers \<open>d\<close>, the candidate loop counts \<open>i\<close> up to
  \<open>d - 1\<close>), the call returns a result, and it has drawn at most \<open>MAX_TRIES * d\<close> bits,
  \<open>d\<close> being the depth computed from \<open>m\<close>.
\<close>

theorem furc_hash_terminates:
  assumes "m \<le> furc_maximum_pool_size shift" and "furc_fits shift max_tries (length h)"
  shows "\<exists>r st'. furc_hash_array shift max_tries k m h = Inr (r, st') \<and>
           length (reads st') \<le> unat max_tries * unat (furc_depth m 0)"
proof (cases "1 < m")
  case True
  from furc_hash_array_ok[OF True assms, of k] show ?thesis by blast
next
  case False
  then have "m \<le> 1" by simp
  from furc_hash_array_trivial[OF this assms(1), of max_tries k h] show ?thesis by simp
qed

theorem furc_hash_terminates_witness:
  "(8388608::u32) \<le> furc_maximum_pool_size 23 \<and>
   furc_fits 23 32 (length (replicate 1024 (0::u64))) \<and>
   (\<exists>r st'. furc_hash_array 23 32 [0x66, 0x6f, 0x6f] 8388608 (replicate 1024 0) = Inr (r, st') \<and>
        length (reads st') \<le> unat (32::u32) * unat (furc_depth 8388608 0))"
proof -
  have h1: "(8388608::u32) \<le> furc_maximum_pool_size 23" by (simp add: furc_maximum_pool_size_def)
  have h2: "furc_fits 23 32 (length (replicate 1024 (0::u64)))" by (simp add: furc_fits_def)
  from furc_hash_terminates[OF h1 h2, of "[0x66, 0x6f, 0x6f]"] h1 h2 show ?thesis by blast
qed

end
